theory Spec2Isabelle
  imports Complex_Main "HOL-Library.Log_Nat" "HOL-Library.Multiset"
begin

section \<open>Scan conversion: points, polygons, the canvas and the drag handler\<close>

text \<open>
  A shallow embedding of \<^verbatim>\<open>Project1_src/scanConversion.js\<close>.

  Numbers. A JavaScript number that is neither \<^verbatim>\<open>NaN\<close> nor infinite is a rational, and
  the model takes coordinates in \<^typ>\<open>rat\<close>. Arithmetic that only produces a value (the
  interpolated \<open>x\<close>, the dragged coordinates) is exact in the model. The step \<^verbatim>\<open>y++\<close> of
  the scan loop decides which rows are filled and whether the loop ends, so it is
  modelled as the double addition it is: \<open>y + 1\<close> rounded to 53 significant bits, ties
  to even. \<^verbatim>\<open>NaN\<close> and \<^verbatim>\<open>undefined\<close> appear where the code produces them, as \<open>None\<close> of
  an option type.

  Loops. The scan loop need not end (from \<open>2^53\<close> on, \<^verbatim>\<open>y++\<close> leaves \<open>y\<close> as it is), so
  \<open>fill\<close> and everything that calls it returns an option: \<open>None\<close> is a call that never
  returns.

  Objects. Points are mutable objects shared by reference between the canvas and its
  polygons, so a point is named by a reference into a store (\<open>heap\<close>), and every function
  that reads a coordinate takes the store.
\<close>

subsection \<open>Constants\<close>

definition POINT_RADIUS :: rat where
  "POINT_RADIUS = 10"

definition ALPHA :: rat where
  "ALPHA = 1 / 2"

subsection \<open>Numbers\<close>

text \<open>
  \<open>binade q\<close> is the exponent \<open>e\<close> with \<open>2^e \<le> |q| < 2^(e+1)\<close>; \<open>rne\<close> rounds to the
  nearest integer, ties to the even one; \<open>round53\<close> rounds to a multiple of
  \<open>2^(e-52)\<close>, that is to 53 significant bits. The exponent range of doubles plays no
  part: the sum \<open>y + 1\<close> of a double \<open>y\<close> and \<open>1\<close> is zero or at least \<open>2^-53\<close> in
  magnitude and never beyond the largest double.
\<close>

definition binade :: "rat \<Rightarrow> int" where
  "binade q =
     (if 1 \<le> \<bar>q\<bar> then int (floorlog 2 (nat \<lfloor>\<bar>q\<bar>\<rfloor>)) - 1
      else - int (floorlog 2 (nat (\<lceil>1 / \<bar>q\<bar>\<rceil> - 1))))"

definition rne :: "rat \<Rightarrow> int" where
  "rne r =
     (let f = \<lfloor>r\<rfloor>; d = r - of_int f
      in if d < 1 / 2 then f else if 1 / 2 < d then f + 1 else if even f then f else f + 1)"

definition round53 :: "rat \<Rightarrow> rat" where
  "round53 q =
     (if q = 0 then 0
      else let u = 2 powi (binade q - 52) in of_int (rne (q / u)) * u)"

definition js_increment :: "rat \<Rightarrow> rat" where
  \<comment> \<open>the value of \<open>y\<close> after \<^verbatim>\<open>y++\<close>\<close>
  "js_increment y = round53 (y + 1)"

subsection \<open>The drawing context\<close>

text \<open>
  The 2D context is the browser's, not the repository's. The model keeps what the code
  can observe or change: the size of the bitmap, the translation set by the constructor,
  the stroke style, the current path, and the surface as the list of strokes painted
  since the bitmap was last cleared as a whole. Everything else of the context (line
  width, compositing) is never touched by the code and stays fixed.
  \<^item> \<^verbatim>\<open>lineTo\<close> with an argument that converts to \<^verbatim>\<open>NaN\<close> does nothing;
  \<^item> \<^verbatim>\<open>stroke\<close> paints the current path with the current style;
  \<^item> \<^verbatim>\<open>clearRect\<close> of a rectangle that covers the bitmap erases everything painted.
\<close>

datatype style = Css string | Rgba "rat list"

datatype pathcmd = MoveTo rat rat | LineTo rat rat | Arc rat rat rat

datatype paint = Stroke style "pathcmd list" | Clear rat rat rat rat

record Ctx =
  bitmap :: "nat \<times> nat"
  origin :: "rat \<times> rat"
  strokeStyle :: style
  path :: "pathcmd list"
  surface :: "paint list"

definition getContext :: "nat \<Rightarrow> nat \<Rightarrow> Ctx" where
  "getContext w h =
     \<lparr>bitmap = (w, h), origin = (0, 0), strokeStyle = Css ''#000000'', path = [], surface = []\<rparr>"

definition translate :: "rat \<Rightarrow> rat \<Rightarrow> Ctx \<Rightarrow> Ctx" where
  "translate dx dy c = c\<lparr>origin := (fst (origin c) + dx, snd (origin c) + dy)\<rparr>"

definition beginPath :: "Ctx \<Rightarrow> Ctx" where
  "beginPath c = c\<lparr>path := []\<rparr>"

definition arc :: "rat \<Rightarrow> rat \<Rightarrow> rat \<Rightarrow> Ctx \<Rightarrow> Ctx" where
  \<comment> \<open>the only call is \<^verbatim>\<open>arc(x, y, radius, 0, 2*Math.PI)\<close>: a full circle\<close>
  "arc cx cy r c = c\<lparr>path := path c @ [Arc cx cy r]\<rparr>"

definition moveTo :: "rat \<Rightarrow> rat \<Rightarrow> Ctx \<Rightarrow> Ctx" where
  "moveTo a b c = c\<lparr>path := path c @ [MoveTo a b]\<rparr>"

definition lineTo :: "rat option \<Rightarrow> rat \<Rightarrow> Ctx \<Rightarrow> Ctx" where
  \<comment> \<open>\<open>None\<close> is \<^verbatim>\<open>undefined\<close>, which converts to \<^verbatim>\<open>NaN\<close>: the call is ignored\<close>
  "lineTo a b c = (case a of None \<Rightarrow> c | Some a' \<Rightarrow> c\<lparr>path := path c @ [LineTo a' b]\<rparr>)"

definition set_strokeStyle :: "style \<Rightarrow> Ctx \<Rightarrow> Ctx" where
  "set_strokeStyle s c = c\<lparr>strokeStyle := s\<rparr>"

definition stroke :: "Ctx \<Rightarrow> Ctx" where
  "stroke c = c\<lparr>surface := surface c @ [Stroke (strokeStyle c) (path c)]\<rparr>"

definition covers :: "Ctx \<Rightarrow> rat \<Rightarrow> rat \<Rightarrow> rat \<Rightarrow> rat \<Rightarrow> bool" where
  \<comment> \<open>the rectangle, moved by the translation, contains the whole bitmap\<close>
  "covers c a b w h \<longleftrightarrow>
     a + fst (origin c) \<le> 0 \<and> b + snd (origin c) \<le> 0 \<and>
     of_nat (fst (bitmap c)) \<le> a + fst (origin c) + w \<and>
     of_nat (snd (bitmap c)) \<le> b + snd (origin c) + h"

definition clearRect :: "rat \<Rightarrow> rat \<Rightarrow> rat \<Rightarrow> rat \<Rightarrow> Ctx \<Rightarrow> Ctx" where
  "clearRect a b w h c =
     (if covers c a b w h then c\<lparr>surface := []\<rparr>
      else c\<lparr>surface := surface c @ [Clear a b w h]\<rparr>)"

subsection \<open>Point\<close>

text \<open>The fields \<^verbatim>\<open>x\<close>, \<^verbatim>\<open>y\<close>, \<^verbatim>\<open>z\<close> are \<open>px\<close>, \<open>py\<close>, \<open>pz\<close> here.\<close>

record Point =
  px :: rat
  py :: rat
  pz :: rat

type_synonym ref = nat

type_synonym heap = "ref \<Rightarrow> Point"

definition draw :: "Point \<Rightarrow> rat \<Rightarrow> Ctx \<Rightarrow> Ctx" where
  "draw p radius c =
     stroke (set_strokeStyle (Css ''black'') (arc (px p) (py p) radius (beginPath c)))"

subsection \<open>Polygon\<close>

record Polygon =
  points :: "ref list"
  color :: "rat list"

definition getIntersection :: "Point \<Rightarrow> Point \<Rightarrow> rat \<Rightarrow> rat option" where
  \<comment> \<open>\<open>None\<close> is \<^verbatim>\<open>NaN\<close>\<close>
  "getIntersection p1 p2 y =
     (if py p1 = py p2 \<or> y < py p1 \<or> y \<ge> py p2 then None
      else Some (px p1 + (px p2 - px p1) * (y - py p1) / (py p2 - py p1)))"

definition sort_by_y :: "heap \<Rightarrow> ref \<times> ref \<Rightarrow> ref \<times> ref" where
  \<comment> \<open>\<^verbatim>\<open>[p1, p2].sort((p1, p2) => p1.y - p2.y)\<close>: the pair is swapped when the comparison
      is positive\<close>
  "sort_by_y h e = (if py (h (fst e)) - py (h (snd e)) > 0 then (snd e, fst e) else e)"

fun edges_from :: "heap \<Rightarrow> ref list \<Rightarrow> nat list \<Rightarrow> (ref \<times> ref) list" where
  "edges_from h ps [] = []"
| "edges_from h ps (i # is) =
     (let p1 = ps ! i; p2 = ps ! ((i + 1) mod length ps)
      in if py (h p1) = py (h p2) then edges_from h ps is
         else sort_by_y h (p1, p2) # edges_from h ps is)"

definition edges :: "heap \<Rightarrow> ref list \<Rightarrow> (ref \<times> ref) list" where
  \<comment> \<open>the first loop of \<^verbatim>\<open>fill\<close>, \<open>i\<close> from \<open>0\<close> below the length; both indices are in range\<close>
  "edges h ps = edges_from h ps [0..<length ps]"

fun not_NaN :: "rat option list \<Rightarrow> rat list" where
  \<comment> \<open>\<^verbatim>\<open>.filter(x => !isNaN(x))\<close>\<close>
  "not_NaN [] = []"
| "not_NaN (None # xs) = not_NaN xs"
| "not_NaN (Some a # xs) = a # not_NaN xs"

definition intersection_x_coordinates :: "heap \<Rightarrow> (ref \<times> ref) list \<Rightarrow> rat \<Rightarrow> rat list" where
  \<comment> \<open>mapped, filtered, then sorted ascending\<close>
  "intersection_x_coordinates h es y =
     sort (not_NaN (map (\<lambda>e. getIntersection (h (fst e)) (h (snd e)) y) es))"

definition elem_at :: "'a list \<Rightarrow> nat \<Rightarrow> 'a option" where
  \<comment> \<open>an array read; out of range it is \<^verbatim>\<open>undefined\<close>\<close>
  "elem_at xs i = (if i < length xs then Some (xs ! i) else None)"

function fill_spans :: "rat list \<Rightarrow> rat list \<Rightarrow> rat \<Rightarrow> nat \<Rightarrow> Ctx \<Rightarrow> Ctx" where
  \<comment> \<open>the inner loop of \<^verbatim>\<open>fill\<close>, from index \<open>i\<close>\<close>
  "fill_spans col xs y i c =
     (if i < length xs then
        fill_spans col xs y (i + 2)
          (stroke (lineTo (elem_at xs (i + 1)) y (moveTo (xs ! i) y
             (set_strokeStyle (Rgba col) (beginPath c)))))
      else c)"
  by pat_completeness auto
termination
  by (relation "measure (\<lambda>(col, xs, y, i, c). length xs - i)") auto

definition fill_row :: "heap \<Rightarrow> rat list \<Rightarrow> (ref \<times> ref) list \<Rightarrow> rat \<Rightarrow> Ctx \<Rightarrow> Ctx" where
  \<comment> \<open>the body of the scan loop\<close>
  "fill_row h col es y c = fill_spans col (intersection_x_coordinates h es y) y 0 c"

partial_function (option) scan ::
  "heap \<Rightarrow> rat list \<Rightarrow> (ref \<times> ref) list \<Rightarrow> rat \<Rightarrow> rat \<Rightarrow> Ctx \<Rightarrow> Ctx option" where
  \<comment> \<open>\<^verbatim>\<open>for (let y = minY; y < maxY; y++)\<close>, from \<open>y\<close>\<close>
  "scan h col es y maxY c =
     (if y < maxY then scan h col es (js_increment y) maxY (fill_row h col es y c)
      else Some c)"

partial_function (option) scan_lines :: "rat \<Rightarrow> rat \<Rightarrow> rat list option" where
  \<comment> \<open>the values of \<open>y\<close> for which the body of that loop runs, in order\<close>
  "scan_lines y maxY =
     (if y < maxY then Option.bind (scan_lines (js_increment y) maxY) (\<lambda>ys. Some (y # ys))
      else Some [])"

definition ys_of :: "heap \<Rightarrow> ref list \<Rightarrow> rat list" where
  \<comment> \<open>\<^verbatim>\<open>this.points.map(p => p.y)\<close>\<close>
  "ys_of h ps = map (\<lambda>p. py (h p)) ps"

fun Math_min :: "rat list \<Rightarrow> rat option" where
  \<comment> \<open>\<open>None\<close> is \<^verbatim>\<open>Infinity\<close>, the value of \<^verbatim>\<open>Math.min()\<close>\<close>
  "Math_min [] = None"
| "Math_min (a # xs) = (case Math_min xs of None \<Rightarrow> Some a | Some m \<Rightarrow> Some (min a m))"

fun Math_max :: "rat list \<Rightarrow> rat option" where
  \<comment> \<open>\<open>None\<close> is \<^verbatim>\<open>-Infinity\<close>, the value of \<^verbatim>\<open>Math.max()\<close>\<close>
  "Math_max [] = None"
| "Math_max (a # xs) = (case Math_max xs of None \<Rightarrow> Some a | Some m \<Rightarrow> Some (max a m))"

definition fill :: "heap \<Rightarrow> Polygon \<Rightarrow> Ctx \<Rightarrow> Ctx option" where
  \<comment> \<open>with \<open>minY\<close> \<^verbatim>\<open>Infinity\<close> or \<open>maxY\<close> \<^verbatim>\<open>-Infinity\<close> the test \<open>y < maxY\<close> fails at once\<close>
  "fill h poly c =
     (let es = edges h (points poly) in
      case (Math_min (ys_of h (points poly)), Math_max (ys_of h (points poly))) of
        (Some minY, Some maxY) \<Rightarrow> scan h (color poly) es minY maxY c
      | _ \<Rightarrow> Some c)"

definition fill_scan_lines :: "heap \<Rightarrow> Polygon \<Rightarrow> rat list option" where
  \<comment> \<open>the scan lines \<open>fill\<close> processes: the values of \<open>y\<close> its scan loop runs through\<close>
  "fill_scan_lines h poly =
     (case (Math_min (ys_of h (points poly)), Math_max (ys_of h (points poly))) of
        (Some minY, Some maxY) \<Rightarrow> scan_lines minY maxY
      | _ \<Rightarrow> Some [])"

subsection \<open>Canvas\<close>

text \<open>
  \<^verbatim>\<open>dom.width\<close> and \<^verbatim>\<open>dom.height\<close> are the size of the bitmap, unsigned integers of the
  canvas element; \<^verbatim>\<open>this.ctx\<close> is the context of that element.
\<close>

record Canvas =
  ctx :: Ctx
  points :: "ref list"
  polygons :: "Polygon list"

datatype error = Error string

datatype completion = Normal | Throw error

definition dom_width :: "Canvas \<Rightarrow> nat" where
  "dom_width cv = fst (bitmap (ctx cv))"

definition dom_height :: "Canvas \<Rightarrow> nat" where
  "dom_height cv = snd (bitmap (ctx cv))"

definition new_Canvas :: "nat \<Rightarrow> nat \<Rightarrow> Canvas" where
  "new_Canvas width height =
     \<lparr>ctx = translate (1 / 2) (1 / 2) (getContext width height), points = [], polygons = []\<rparr>"

definition isOutOfBounds :: "Canvas \<Rightarrow> Point \<Rightarrow> bool" where
  "isOutOfBounds cv point \<longleftrightarrow>
     px point < 0 \<or> px point > of_nat (dom_width cv) \<or>
     py point < 0 \<or> py point > of_nat (dom_height cv)"

definition addPoint :: "heap \<Rightarrow> ref \<Rightarrow> Canvas \<Rightarrow> completion \<times> Canvas" where
  "addPoint h point cv =
     (if isOutOfBounds cv (h point) then (Throw (Error ''Point out of bounds''), cv)
      else (Normal, cv\<lparr>points := points cv @ [point]\<rparr>))"

definition addPolygon :: "heap \<Rightarrow> Polygon \<Rightarrow> Canvas \<Rightarrow> completion \<times> Canvas" where
  "addPolygon h polygon cv =
     (if list_ex (\<lambda>p. isOutOfBounds cv (h p)) (Polygon.points polygon)
      then (Throw (Error ''Polygon out of bounds''), cv)
      else (Normal, cv\<lparr>polygons := polygons cv @ [polygon]\<rparr>))"

fun fill_all :: "heap \<Rightarrow> Polygon list \<Rightarrow> Ctx \<Rightarrow> Ctx option" where
  \<comment> \<open>\<^verbatim>\<open>this.polygons.forEach(p => p.fill(this.ctx))\<close>\<close>
  "fill_all h [] c = Some c"
| "fill_all h (p # ps) c = Option.bind (fill h p c) (fill_all h ps)"

definition clear_and_draw :: "heap \<Rightarrow> Canvas \<Rightarrow> Canvas option" where
  "clear_and_draw h cv =
     map_option (\<lambda>c. cv\<lparr>ctx := c\<rparr>)
       (fill_all h (polygons cv)
          (fold (\<lambda>p. draw (h p) POINT_RADIUS) (points cv)
             (clearRect (- 1 / 2) (- 1 / 2) (of_nat (dom_width cv)) (of_nat (dom_height cv))
                (ctx cv))))"

subsection \<open>The drag handler\<close>

text \<open>
  The three variables of \<^verbatim>\<open>addDragHandler\<close>, the store and the canvas form the state
  the listeners run on; \<open>drag_point = None\<close> is \<^verbatim>\<open>null\<close>. An event carries
  \<^verbatim>\<open>offsetX\<close> and \<^verbatim>\<open>offsetY\<close>. The listener for \<^verbatim>\<open>mousemove\<close> redraws, so it returns
  an option.
\<close>

record World =
  heap :: heap
  canvas :: Canvas
  drag_flag :: bool
  drag_point :: "ref option"
  drag_offset :: "rat \<times> rat"

definition addDragHandler :: "heap \<Rightarrow> Canvas \<Rightarrow> World" where
  "addDragHandler h cv =
     \<lparr>heap = h, canvas = cv, drag_flag = False, drag_point = None, drag_offset = (0, 0)\<rparr>"

definition mousedown :: "rat \<times> rat \<Rightarrow> World \<Rightarrow> completion \<times> World" where
  "mousedown e w =
     (let x = fst e; y = snd e in
      case find (\<lambda>p. (px (heap w p) - x)\<^sup>2 + (py (heap w p) - y)\<^sup>2 \<le> POINT_RADIUS\<^sup>2)
             (points (canvas w)) of
        Some point \<Rightarrow>
          (Normal, w\<lparr>drag_flag := True, drag_point := Some point,
                      drag_offset := (x - px (heap w point), y - py (heap w point))\<rparr>)
      | None \<Rightarrow> (Normal, w))"

definition mousemove :: "rat \<times> rat \<Rightarrow> World \<Rightarrow> (completion \<times> World) option" where
  "mousemove e w =
     (if drag_flag w then
        (case drag_point w of
           None \<Rightarrow> Some (Throw (Error ''TypeError''), w)
         | Some p \<Rightarrow>
             (let h1 = (heap w)(p := (heap w p)\<lparr>px := fst e - fst (drag_offset w)\<rparr>);
                  h2 = h1(p := (h1 p)\<lparr>py := snd e - snd (drag_offset w)\<rparr>)
              in map_option (\<lambda>cv. (Normal, w\<lparr>heap := h2, canvas := cv\<rparr>))
                   (clear_and_draw h2 (canvas w))))
      else Some (Normal, w))"

definition mouseup :: "World \<Rightarrow> completion \<times> World" where
  "mouseup w = (Normal, w\<lparr>drag_flag := False, drag_point := None\<rparr>)"

subsection \<open>What a drawing function paints\<close>

text \<open>
  Every stroke of the code starts a new path, sets the style and strokes once. Such a
  unit is described by its style and its path; the functions below list the units of
  each drawing function, and the lemmas of the next section show that the code paints
  exactly these.
\<close>

definition stroke_unit :: "style \<times> pathcmd list \<Rightarrow> Ctx \<Rightarrow> Ctx" where
  "stroke_unit u c =
     c\<lparr>strokeStyle := fst u, path := snd u, surface := surface c @ [Stroke (fst u) (snd u)]\<rparr>"

definition span_path :: "rat list \<Rightarrow> rat \<Rightarrow> nat \<Rightarrow> pathcmd list" where
  "span_path xs y i =
     MoveTo (xs ! i) y # (case elem_at xs (i + 1) of None \<Rightarrow> [] | Some b \<Rightarrow> [LineTo b y])"

function span_units :: "rat list \<Rightarrow> rat list \<Rightarrow> rat \<Rightarrow> nat \<Rightarrow> (style \<times> pathcmd list) list" where
  "span_units col xs y i =
     (if i < length xs then (Rgba col, span_path xs y i) # span_units col xs y (i + 2) else [])"
  by pat_completeness auto
termination
  by (relation "measure (\<lambda>(col, xs, y, i). length xs - i)") auto

definition row_units ::
  "heap \<Rightarrow> rat list \<Rightarrow> (ref \<times> ref) list \<Rightarrow> rat \<Rightarrow> (style \<times> pathcmd list) list" where
  "row_units h col es y = span_units col (intersection_x_coordinates h es y) y 0"

definition fill_units :: "heap \<Rightarrow> Polygon \<Rightarrow> (style \<times> pathcmd list) list option" where
  "fill_units h poly =
     map_option
       (\<lambda>ys. concat (map (row_units h (color poly) (edges h (Polygon.points poly))) ys))
       (fill_scan_lines h poly)"

fun all_units :: "heap \<Rightarrow> Polygon list \<Rightarrow> (style \<times> pathcmd list) list option" where
  "all_units h [] = Some []"
| "all_units h (p # ps) =
     Option.bind (fill_units h p) (\<lambda>us. map_option ((@) us) (all_units h ps))"

definition scene_units :: "heap \<Rightarrow> Canvas \<Rightarrow> (style \<times> pathcmd list) list option" where
  \<comment> \<open>the points in insertion order, then the polygons in insertion order\<close>
  "scene_units h cv =
     map_option
       ((@) (map (\<lambda>p. (Css ''black'', [Arc (px (h p)) (py (h p)) POINT_RADIUS])) (points cv)))
       (all_units h (polygons cv))"

definition strokes :: "(style \<times> pathcmd list) list \<Rightarrow> paint list" where
  "strokes us = map (\<lambda>u. Stroke (fst u) (snd u)) us"

subsection \<open>Spans, what a call paints, and the vertical extent\<close>

text \<open>
  The line segments of a path, as the context strokes them: \<open>moveTo\<close> starts a
  subpath, \<open>lineTo\<close> adds a segment from the current point (or starts a subpath when
  there is none), \<open>arc\<close> is joined to the current point by a segment to its start.
  A span is a segment together with the style it was stroked in. \<open>painted c c'\<close> is
  what the surface of \<open>c'\<close> holds beyond that of \<open>c\<close>. \<open>pair_spans\<close> pairs the entries
  of a list, \<open>0\<close> with \<open>1\<close>, \<open>2\<close> with \<open>3\<close>, and so on, into spans of a row; a last entry
  without partner gives none. \<open>minY\<close> and \<open>maxY\<close> are the least and the greatest \<open>y\<close> of
  the vertices of a polygon that has vertices.
\<close>

fun segments :: "pathcmd list \<Rightarrow> (rat \<times> rat) option \<Rightarrow> ((rat \<times> rat) \<times> (rat \<times> rat)) list" where
  "segments [] cur = []"
| "segments (MoveTo a b # cs) cur = segments cs (Some (a, b))"
| "segments (LineTo a b # cs) cur =
     (case cur of None \<Rightarrow> segments cs (Some (a, b))
      | Some p \<Rightarrow> (p, (a, b)) # segments cs (Some (a, b)))"
| "segments (Arc cx cy r # cs) cur =
     (case cur of None \<Rightarrow> segments cs (Some (cx + r, cy))
      | Some p \<Rightarrow> (p, (cx + r, cy)) # segments cs (Some (cx + r, cy)))"

fun spans_of :: "paint list \<Rightarrow> (style \<times> (rat \<times> rat) \<times> (rat \<times> rat)) list" where
  "spans_of [] = []"
| "spans_of (Stroke st p # ps) = map (\<lambda>sg. (st, sg)) (segments p None) @ spans_of ps"
| "spans_of (Clear a b w h # ps) = spans_of ps"

definition painted :: "Ctx \<Rightarrow> Ctx \<Rightarrow> paint list" where
  "painted c c' = drop (length (surface c)) (surface c')"

definition pair_spans ::
  "rat list \<Rightarrow> rat list \<Rightarrow> rat \<Rightarrow> (style \<times> (rat \<times> rat) \<times> (rat \<times> rat)) list" where
  "pair_spans col xs y =
     map (\<lambda>j. (Rgba col, (xs ! (2 * j), y), (xs ! (2 * j + 1), y))) [0..<length xs div 2]"

definition minY :: "heap \<Rightarrow> Polygon \<Rightarrow> rat" where
  "minY h poly = Min (set (ys_of h (Polygon.points poly)))"

definition maxY :: "heap \<Rightarrow> Polygon \<Rightarrow> rat" where
  "maxY h poly = Max (set (ys_of h (Polygon.points poly)))"

subsection \<open>Convex polygons\<close>

text \<open>
  \<open>side a b q\<close> is the cross product of \<open>b - a\<close> and \<open>q - a\<close>: its sign tells on which
  side of the line through \<open>a\<close> and \<open>b\<close> the point \<open>q\<close> lies. \<open>line_x a b y\<close> is where
  that line meets the row \<open>y\<close>. An edge goes up at \<open>y\<close> when its first end is at or
  below \<open>y\<close> and its second end above, and edge \<open>i\<close> of a polygon runs from vertex \<open>i\<close>
  to the next vertex of the loop. A loop of vertices is strictly convex when it has at
  least three vertices and, for every edge, all the other vertices lie strictly on one
  and the same side of the edge's line (the side is \<open>s\<close>: \<open>1\<close> or \<open>-1\<close> with the sense
  of the loop). A convex polygon is such a loop, started at any of its vertices, with
  any number of further vertices on its edges: between two corners or on a corner, so
  that vertices may be collinear and may repeat. A point is in the polygon when, for
  every edge, it lies on the closed side of the edge's line that holds the vertices.
\<close>

definition coords :: "Point \<Rightarrow> rat \<times> rat" where
  "coords p = (px p, py p)"

definition side :: "Point \<Rightarrow> Point \<Rightarrow> rat \<times> rat \<Rightarrow> rat" where
  "side a b q = (px b - px a) * (snd q - py a) - (py b - py a) * (fst q - px a)"

definition line_x :: "Point \<Rightarrow> Point \<Rightarrow> rat \<Rightarrow> rat" where
  "line_x a b y = px a + (px b - px a) * (y - py a) / (py b - py a)"

definition goes_up :: "Point \<Rightarrow> Point \<Rightarrow> rat \<Rightarrow> bool" where
  "goes_up a b y \<longleftrightarrow> py a \<le> y \<and> y < py b"

definition up_edge :: "heap \<Rightarrow> ref list \<Rightarrow> rat \<Rightarrow> nat \<Rightarrow> bool" where
  "up_edge h ps y i \<longleftrightarrow> goes_up (h (ps ! i)) (h (ps ! (Suc i mod length ps))) y"

definition down_edge :: "heap \<Rightarrow> ref list \<Rightarrow> rat \<Rightarrow> nat \<Rightarrow> bool" where
  "down_edge h ps y i \<longleftrightarrow> goes_up (h (ps ! (Suc i mod length ps))) (h (ps ! i)) y"

definition crosses :: "heap \<Rightarrow> ref list \<Rightarrow> rat \<Rightarrow> nat \<Rightarrow> bool" where
  "crosses h ps y i \<longleftrightarrow> up_edge h ps y i \<or> down_edge h ps y i"

definition edge_side :: "heap \<Rightarrow> ref list \<Rightarrow> nat \<Rightarrow> rat \<times> rat \<Rightarrow> rat" where
  "edge_side h ps i q = side (h (ps ! i)) (h (ps ! (Suc i mod length ps))) q"

definition edge_x :: "heap \<Rightarrow> ref list \<Rightarrow> rat \<Rightarrow> nat \<Rightarrow> rat" where
  "edge_x h ps y i = line_x (h (ps ! i)) (h (ps ! (Suc i mod length ps))) y"

definition convex_with :: "rat \<Rightarrow> heap \<Rightarrow> ref list \<Rightarrow> bool" where
  "convex_with s h ps \<longleftrightarrow>
     (\<forall>i < length ps. \<forall>k < length ps. k \<noteq> i \<and> k \<noteq> Suc i mod length ps \<longrightarrow>
        0 < s * edge_side h ps i (coords (h (ps ! k))))"

definition strictly_convex :: "heap \<Rightarrow> ref list \<Rightarrow> bool" where
  "strictly_convex h ps \<longleftrightarrow> 3 \<le> length ps \<and> (convex_with 1 h ps \<or> convex_with (- 1) h ps)"






subsection \<open>Examples\<close>

text \<open>
  The triangle \<open>(0,0)\<close>, \<open>(10,0)\<close>, \<open>(5,10)\<close> in red, on a canvas of 100 by 50 that
  holds its three points; a triangle whose vertices lie on half-integer rows; the
  state of the handler after the mouse went down on the point \<open>(10,0)\<close>; the square
  \<open>(0,0)\<close>, \<open>(10,0)\<close>, \<open>(10,10)\<close>, \<open>(0,10)\<close> with the further vertex \<open>(10,5)\<close> on its
  right edge; and a triangle whose rows start at \<open>2^53\<close>.
\<close>

definition triangle_heap :: heap where
  "triangle_heap =
     (\<lambda>r. \<lparr>px = 0, py = 0, pz = 0\<rparr>)
       (1 := \<lparr>px = 10, py = 0, pz = 0\<rparr>, 2 := \<lparr>px = 5, py = 10, pz = 0\<rparr>)"

definition triangle :: Polygon where
  "triangle = \<lparr>Polygon.points = [0, 1, 2], color = [255, 0, 0, 1]\<rparr>"

definition triangle_canvas :: Canvas where
  "triangle_canvas = (new_Canvas 100 50)\<lparr>points := [0, 1, 2], polygons := [triangle]\<rparr>"

definition half_heap :: heap where
  "half_heap =
     (\<lambda>r. \<lparr>px = 0, py = 1 / 2, pz = 0\<rparr>)
       (1 := \<lparr>px = 4, py = 1 / 2, pz = 0\<rparr>, 2 := \<lparr>px = 2, py = 5 / 2, pz = 0\<rparr>)"

definition half_triangle :: Polygon where
  "half_triangle = \<lparr>Polygon.points = [0, 1, 2], color = [255, 0, 0, 1]\<rparr>"

definition dragging :: World where
  "dragging = snd (mousedown (12, 1) (addDragHandler triangle_heap triangle_canvas))"

definition square_heap :: heap where
  "square_heap =
     (\<lambda>r. \<lparr>px = 0, py = 0, pz = 0\<rparr>)
       (1 := \<lparr>px = 10, py = 0, pz = 0\<rparr>, 2 := \<lparr>px = 10, py = 10, pz = 0\<rparr>,
        3 := \<lparr>px = 0, py = 10, pz = 0\<rparr>, 4 := \<lparr>px = 10, py = 5, pz = 0\<rparr>)"

definition square :: Polygon where
  "square = \<lparr>Polygon.points = [0, 1, 4, 2, 3], color = [0, 0, 255, 1 / 2]\<rparr>"


section \<open>Properties\<close>

subsection \<open>getIntersection\<close>

text \<open>
  C1. For an edge with \<open>p_low.y < p_high.y\<close>, \<open>getIntersection\<close> returns the linear
  interpolation \<open>p_low.x + (p_high.x - p_low.x) * (y - p_low.y) / (p_high.y - p_low.y)\<close>
  exactly when \<open>p_low.y \<le> y < p_high.y\<close> and \<^verbatim>\<open>NaN\<close> when \<open>y\<close> is outside that
  half-open interval; for a horizontal edge it returns \<^verbatim>\<open>NaN\<close> for every \<open>y\<close>.
\<close>

theorem getIntersection_half_open:
  "(py p_low < py p_high \<longrightarrow>
      getIntersection p_low p_high y =
        (if py p_low \<le> y \<and> y < py p_high
         then Some (px p_low + (px p_high - px p_low) * (y - py p_low) / (py p_high - py p_low))
         else None))
   \<and> (py p_low = py p_high \<longrightarrow> getIntersection p_low p_high y = None)"
  by (auto simp: getIntersection_def)

theorem getIntersection_half_open_witness:
  "py \<lparr>px = 10, py = 0, pz = 0\<rparr> < py \<lparr>px = 5, py = 10, pz = 0\<rparr>
   \<and> getIntersection \<lparr>px = 10, py = 0, pz = 0\<rparr> \<lparr>px = 5, py = 10, pz = 0\<rparr> 5 = Some (15 / 2)
   \<and> getIntersection \<lparr>px = 10, py = 0, pz = 0\<rparr> \<lparr>px = 5, py = 10, pz = 0\<rparr> 0 = Some 10
   \<and> getIntersection \<lparr>px = 10, py = 0, pz = 0\<rparr> \<lparr>px = 5, py = 10, pz = 0\<rparr> 10 = None
   \<and> getIntersection \<lparr>px = 0, py = 0, pz = 0\<rparr> \<lparr>px = 10, py = 0, pz = 0\<rparr> 0 = None"
  using getIntersection_half_open [of "\<lparr>px = 10, py = 0, pz = 0\<rparr>" "\<lparr>px = 5, py = 10, pz = 0\<rparr>" 5]
        getIntersection_half_open [of "\<lparr>px = 10, py = 0, pz = 0\<rparr>" "\<lparr>px = 5, py = 10, pz = 0\<rparr>" 0]
        getIntersection_half_open [of "\<lparr>px = 10, py = 0, pz = 0\<rparr>" "\<lparr>px = 5, py = 10, pz = 0\<rparr>" 10]
        getIntersection_half_open [of "\<lparr>px = 0, py = 0, pz = 0\<rparr>" "\<lparr>px = 10, py = 0, pz = 0\<rparr>" 0]
  by simp

subsection \<open>The increment of the scan loop\<close>

text \<open>
  \<open>round53\<close> is within half a unit of its argument and leaves the integers up to
  \<open>2^53\<close> as they are, so \<^verbatim>\<open>y++\<close> is exact on the integers below \<open>2^53\<close> and moves
  every \<open>y\<close> up by at least a half there. It stops moving at \<open>2^53\<close>, and the decimal
  fractions \<open>0.3\<close> and \<open>1.3\<close>, as doubles, are one step of \<^verbatim>\<open>y++\<close> apart.
\<close>

lemma binade_large:
  assumes "1 \<le> \<bar>q\<bar>"
  shows "2 powi (binade q) \<le> \<bar>q\<bar> \<and> \<bar>q\<bar> < 2 powi (binade q + 1)"
proof -
  let ?N = "nat \<lfloor>\<bar>q\<bar>\<rfloor>"
  let ?L = "floorlog 2 ?N"
  from assms have N: "0 < ?N" by simp
  from floorlog_bounds [OF N, of 2] have b: "2 ^ (?L - 1) \<le> ?N" "?N < 2 ^ ?L" by simp_all
  have "?L \<noteq> 0" using N unfolding floorlog_eq_zero_iff by simp
  then have L: "0 < ?L" by simp
  have bin: "binade q = int (?L - 1)" "binade q + 1 = int ?L"
    using assms L by (simp_all add: binade_def)
  have "(2::rat) ^ (?L - 1) \<le> of_nat ?N"
    using b(1) by (metis of_nat_le_iff of_nat_numeral of_nat_power)
  also have "of_nat ?N \<le> \<bar>q\<bar>"
    using assms by (simp add: of_nat_nat)
  finally have lo: "2 powi (binade q) \<le> \<bar>q\<bar>"
    by (simp only: bin(1) power_int_of_nat)
  have "Suc ?N \<le> 2 ^ ?L" using b(2) by (rule Suc_leI)
  then have "(of_nat (Suc ?N) :: rat) \<le> 2 ^ ?L"
    by (metis of_nat_le_iff of_nat_numeral of_nat_power)
  moreover have "\<bar>q\<bar> < of_nat (Suc ?N)"
    using assms by (simp add: of_nat_nat) linarith
  ultimately have "\<bar>q\<bar> < 2 ^ ?L" by simp
  then have hi: "\<bar>q\<bar> < 2 powi (binade q + 1)"
    by (simp only: bin(2) power_int_of_nat)
  from lo hi show ?thesis ..
qed

lemma binade_small:
  assumes "q \<noteq> 0" "\<bar>q\<bar> < 1"
  shows "2 powi (binade q) \<le> \<bar>q\<bar> \<and> \<bar>q\<bar> < 2 powi (binade q + 1)"
proof -
  let ?r = "1 / \<bar>q\<bar>"
  let ?N = "nat (\<lceil>?r\<rceil> - 1)"
  let ?L = "floorlog 2 ?N"
  from assms have q: "0 < \<bar>q\<bar>" by simp
  with assms have r: "1 < ?r" by simp
  then have c: "2 \<le> \<lceil>?r\<rceil>" by (simp add: le_ceiling_iff)
  then have N: "0 < ?N" by simp
  have Nr: "of_nat ?N < ?r" "?r \<le> of_nat (Suc ?N)"
    using c by (simp_all add: of_nat_nat) linarith+
  from floorlog_bounds [OF N, of 2] have b: "2 ^ (?L - 1) \<le> ?N" "?N < 2 ^ ?L" by simp_all
  have "?L \<noteq> 0" using N unfolding floorlog_eq_zero_iff by simp
  then have L: "0 < ?L" by simp
  have bin: "binade q = - int ?L"
    using assms by (simp add: binade_def)
  have "Suc ?N \<le> 2 ^ ?L" using b(2) by (rule Suc_leI)
  then have "(of_nat (Suc ?N) :: rat) \<le> 2 ^ ?L"
    by (metis of_nat_le_iff of_nat_numeral of_nat_power)
  with Nr(2) have "?r \<le> 2 ^ ?L" by simp
  then have "1 \<le> 2 ^ ?L * \<bar>q\<bar>"
    using q by (simp add: field_simps)
  then have lo: "2 powi (binade q) \<le> \<bar>q\<bar>"
    by (simp add: bin power_int_minus field_simps)
  have "(2::rat) ^ (?L - 1) \<le> of_nat ?N"
    using b(1) by (metis of_nat_le_iff of_nat_numeral of_nat_power)
  from this Nr(1) have "2 ^ (?L - 1) < ?r" by (rule le_less_trans)
  then have "2 ^ (?L - 1) * \<bar>q\<bar> < 1"
    using q by (simp add: field_simps)
  moreover have "binade q + 1 = - int (?L - 1)"
    using L by (simp add: bin)
  ultimately have hi: "\<bar>q\<bar> < 2 powi (binade q + 1)"
    by (simp add: power_int_minus field_simps)
  from lo hi show ?thesis ..
qed

lemma binade_bounds:
  "q \<noteq> 0 \<Longrightarrow> 2 powi (binade q) \<le> \<bar>q\<bar> \<and> \<bar>q\<bar> < 2 powi (binade q + 1)"
  using binade_large [of q] binade_small [of q] by (cases "1 \<le> \<bar>q\<bar>") auto

lemma binade_eq:
  assumes "2 powi e \<le> \<bar>q\<bar>" "\<bar>q\<bar> < 2 powi (e + 1)"
  shows "binade q = e"
proof -
  from assms(1) have "0 < \<bar>q\<bar>"
    by (rule less_le_trans [rotated]) simp
  then have q: "q \<noteq> 0" by simp
  note b = binade_bounds [OF q]
  have "(2::rat) powi e < 2 powi (binade q + 1)"
    using assms(1) b by linarith
  then have 1: "e < binade q + 1"
    by (metis power_int_increasing not_less one_le_numeral)
  have "(2::rat) powi (binade q) < 2 powi (e + 1)"
    using assms(2) b by linarith
  then have 2: "binade q < e + 1"
    by (metis power_int_increasing not_less one_le_numeral)
  from 1 2 show ?thesis by simp
qed

lemma rne_error: "\<bar>of_int (rne r) - r\<bar> \<le> 1 / 2"
proof -
  have "of_int \<lfloor>r\<rfloor> \<le> r" "r < of_int \<lfloor>r\<rfloor> + 1"
    by linarith+
  then show ?thesis
    by (auto simp: rne_def Let_def abs_le_iff)
qed

lemma rne_of_int [simp]: "rne (of_int n) = n"
  by (simp add: rne_def)

lemma rne_Ints: "r \<in> \<int> \<Longrightarrow> of_int (rne r) = r"
  by (auto elim!: Ints_cases)

lemma round53_exact:
  assumes "q / 2 powi (binade q - 52) \<in> \<int>"
  shows "round53 q = q"
proof (cases "q = 0")
  case True
  then show ?thesis by (simp add: round53_def)
next
  case False
  then show ?thesis
    using rne_Ints [OF assms] by (simp add: round53_def Let_def)
qed

lemma binade_le:
  assumes "q \<noteq> 0" "\<bar>q\<bar> < 2 powi e"
  shows "binade q < e"
proof -
  have "(2::rat) powi (binade q) < 2 powi e"
    using binade_bounds [OF assms(1)] assms(2) by linarith
  then show ?thesis
    by (metis power_int_increasing not_less one_le_numeral)
qed

lemma round53_of_int:
  assumes "\<bar>n\<bar> \<le> 2 ^ 53"
  shows "round53 (of_int n) = of_int n"
proof (cases "\<bar>n\<bar> = 2 ^ 53")
  case True
  then have a: "\<bar>of_int n :: rat\<bar> = 2 ^ 53"
    by (metis of_int_abs of_int_numeral of_int_power)
  have "binade (of_int n) = 53"
    by (rule binade_eq) (simp_all add: a)
  moreover have "(of_int n :: rat) / 2 \<in> \<int>"
  proof -
    from True have "n = 2 * 2 ^ 52 \<or> n = 2 * (- (2 ^ 52))" by auto
    then show ?thesis by auto
  qed
  ultimately show ?thesis
    by (intro round53_exact) simp
next
  case False
  show ?thesis
  proof (cases "n = 0")
    case True
    then show ?thesis by (simp add: round53_def)
  next
    case n: False
    from False assms have "\<bar>n\<bar> < 2 ^ 53" by simp
    then have "\<bar>of_int n :: rat\<bar> < 2 ^ 53"
      by (metis of_int_abs of_int_less_iff of_int_numeral of_int_power)
    then have "\<bar>of_int n :: rat\<bar> < 2 powi 53" by simp
    with n have "binade (of_int n) < 53"
      by (intro binade_le) simp_all
    then have "binade (of_int n) - 52 = - int (nat (52 - binade (of_int n)))"
      by simp
    then obtain k :: nat where k: "binade (of_int n) - 52 = - int k" ..
    have "(of_int n :: rat) / 2 powi (binade (of_int n) - 52) = of_int (n * 2 ^ k)"
      by (simp add: k power_int_minus field_simps)
    then show ?thesis
      by (intro round53_exact) (simp only: Ints_of_int)
  qed
qed

lemma round53_error:
  assumes "\<bar>q\<bar> \<le> 2 ^ 53"
  shows "\<bar>round53 q - q\<bar> \<le> 1 / 2"
proof (cases "q = 0")
  case True
  then show ?thesis by (simp add: round53_def)
next
  case False
  show ?thesis
  proof (cases "\<bar>q\<bar> = 2 ^ 53")
    case True
    have p: "round53 (of_int (2 ^ 53)) = of_int (2 ^ 53)"
      by (rule round53_of_int) simp
    have m: "round53 (of_int (- (2 ^ 53))) = of_int (- (2 ^ 53))"
      by (rule round53_of_int) simp
    from True have "q = of_int (2 ^ 53) \<or> q = of_int (- (2 ^ 53))"
      by (auto simp: abs_if split: if_splits)
    with p m have "round53 q = q"
      by metis
    then show ?thesis by simp
  next
    case ne: False
    with assms have "\<bar>q\<bar> < 2 powi 53" by simp
    with False have e: "binade q - 52 \<le> 0"
      using binade_le [of q 53] by simp
    let ?u = "(2::rat) powi (binade q - 52)"
    have u: "0 < ?u" "?u \<le> 1"
      using power_int_increasing [OF e, of "2::rat"] by simp_all
    have "round53 q - q = (of_int (rne (q / ?u)) - q / ?u) * ?u"
      using False u by (simp add: round53_def Let_def field_simps)
    then have "\<bar>round53 q - q\<bar> = \<bar>of_int (rne (q / ?u)) - q / ?u\<bar> * ?u"
      using u by (simp add: abs_mult)
    also have "\<dots> \<le> (1 / 2) * 1"
      using rne_error [of "q / ?u"] u by (intro mult_mono) simp_all
    finally show ?thesis by simp
  qed
qed

lemma js_increment_of_int:
  assumes "- (2 ^ 53) \<le> n" "n < 2 ^ 53"
  shows "js_increment (of_int n) = of_int (n + 1)"
proof -
  have "round53 (of_int (n + 1)) = of_int (n + 1)"
    using assms by (intro round53_of_int) (simp add: abs_le_iff)
  then show ?thesis
    by (simp add: js_increment_def)
qed

lemma js_increment_progress:
  assumes "\<bar>y + 1\<bar> \<le> 2 ^ 53"
  shows "y + 1 / 2 \<le> js_increment y"
  using round53_error [OF assms] unfolding js_increment_def by linarith

lemma round53_half_a: "round53 (3 / 2) = 3 / 2"
proof -
  have "binade (3 / 2) = 0" by (rule binade_eq) simp_all
  then show ?thesis by (intro round53_exact) (simp add: power_int_minus)
qed

lemma round53_half_b: "round53 (5 / 2) = 5 / 2"
proof -
  have "binade (5 / 2) = 1" by (rule binade_eq) simp_all
  then show ?thesis by (intro round53_exact) (simp add: power_int_minus)
qed




lemma js_increment_halves: "js_increment (1 / 2) = 3 / 2" "js_increment (3 / 2) = 5 / 2"
  using round53_half_a round53_half_b by (simp_all add: js_increment_def)

lemma round53_eqI:
  assumes "2 powi e \<le> \<bar>q\<bar>" "\<bar>q\<bar> < 2 powi (e + 1)" "rne (q / 2 powi (e - 52)) = n"
  shows "round53 q = of_int n * 2 powi (e - 52)"
proof -
  have b: "binade q = e" using assms(1,2) by (rule binade_eq)
  from assms(1) have "0 < \<bar>q\<bar>"
    by (rule less_le_trans [rotated]) simp
  then have "q \<noteq> 0" by simp
  then show ?thesis
    by (simp add: round53_def b Let_def assms(3))
qed

lemma js_increment_three_tenths:
  "js_increment (5404319552844595 / 18014398509481984) = 5854679515581645 / 4503599627370496"
proof -
  have f: "\<lfloor>(23418718062326579::rat) / 4\<rfloor> = 5854679515581644"
    by (simp add: floor_eq_iff)
  have "rne (23418718062326579 / 18014398509481984 / 2 powi (0 - 52)) = 5854679515581645"
    by (simp add: rne_def Let_def power_int_minus f)
  then have "round53 (23418718062326579 / 18014398509481984)
      = of_int 5854679515581645 * 2 powi (0 - 52)"
    by (intro round53_eqI) simp_all
  then show ?thesis
    by (simp add: js_increment_def power_int_minus)
qed

subsection \<open>The code paints stroke units\<close>

lemma scan_rows:
  assumes "scan h col es y m c = Some r"
  shows "\<exists>ys. scan_lines y m = Some ys \<and> r = fold (fill_row h col es) ys c"
proof (rule scan.raw_induct
    [where P = "\<lambda>h col es y m c r. \<exists>ys. scan_lines y m = Some ys \<and> r = fold (fill_row h col es) ys c",
      OF _ assms])
  fix f h col es y m c r
  assume IH: "\<And>h col es y m c r. f h col es y m c = Some r \<Longrightarrow>
      \<exists>ys. scan_lines y m = Some ys \<and> r = fold (fill_row h col es) ys c"
    and eq: "(if y < m then f h col es (js_increment y) m (fill_row h col es y c) else Some c)
      = Some r"
  show "\<exists>ys. scan_lines y m = Some ys \<and> r = fold (fill_row h col es) ys c"
  proof (cases "y < m")
    case True
    with eq have "f h col es (js_increment y) m (fill_row h col es y c) = Some r"
      by simp
    from IH [OF this] obtain ys where ys: "scan_lines (js_increment y) m = Some ys"
      "r = fold (fill_row h col es) ys (fill_row h col es y c)" by blast
    from True ys(1) have "scan_lines y m = Some (y # ys)"
      by (subst scan_lines.simps) simp
    with ys(2) show ?thesis by simp
  next
    case False
    with eq have "r = c" by simp
    moreover from False have "scan_lines y m = Some []"
      by (subst scan_lines.simps) simp
    ultimately show ?thesis by simp
  qed
qed

lemma rows_scan:
  assumes "scan_lines y m = Some ys"
  shows "scan h col es y m c = Some (fold (fill_row h col es) ys c)"
proof -
  have "\<forall>c. scan h col es y m c = Some (fold (fill_row h col es) ys c)"
  proof (rule scan_lines.raw_induct
      [where P = "\<lambda>y m ys. \<forall>c. scan h col es y m c = Some (fold (fill_row h col es) ys c)",
        OF _ assms])
    fix f y m ys
    assume IH: "\<And>y m ys. f y m = Some ys \<Longrightarrow>
        \<forall>c. scan h col es y m c = Some (fold (fill_row h col es) ys c)"
      and eq: "(if y < m then Option.bind (f (js_increment y) m) (\<lambda>ys. Some (y # ys)) else Some [])
        = Some ys"
    show "\<forall>c. scan h col es y m c = Some (fold (fill_row h col es) ys c)"
    proof (cases "y < m")
      case True
      with eq obtain zs where zs: "f (js_increment y) m = Some zs" "ys = y # zs"
        by (auto simp: bind_eq_Some_conv)
      from IH [OF zs(1)] have
        "\<forall>c. scan h col es (js_increment y) m c = Some (fold (fill_row h col es) zs c)" .
      with True zs(2) show ?thesis
        by (subst scan.simps) simp
    next
      case False
      with eq have "ys = []" by simp
      with False show ?thesis
        by (subst scan.simps) simp
    qed
  qed
  then show ?thesis ..
qed

lemma scan_eq:
  "scan h col es y m c = map_option (\<lambda>ys. fold (fill_row h col es) ys c) (scan_lines y m)"
proof (cases "scan_lines y m")
  case None
  then show ?thesis
    using scan_rows [of h col es y m c] by (cases "scan h col es y m c") auto
next
  case (Some ys)
  then show ?thesis
    using rows_scan [OF Some, of h col es c] by simp
qed

lemma fill_eq:
  "fill h poly c =
     map_option (\<lambda>ys. fold (fill_row h (color poly) (edges h (Polygon.points poly))) ys c)
       (fill_scan_lines h poly)"
  by (simp add: fill_def fill_scan_lines_def scan_eq split: option.splits)

declare fill_spans.simps [simp del]

declare span_units.simps [simp del]

lemma draw_unit: "draw p r c = stroke_unit (Css ''black'', [Arc (px p) (py p) r]) c"
  by (simp add: draw_def stroke_unit_def stroke_def set_strokeStyle_def arc_def beginPath_def)

lemma span_step:
  "stroke (lineTo (elem_at xs (Suc i)) y (moveTo (xs ! i) y (set_strokeStyle (Rgba col) (beginPath c))))
     = stroke_unit (Rgba col, span_path xs y i) c"
  by (simp add: stroke_unit_def stroke_def set_strokeStyle_def lineTo_def moveTo_def beginPath_def
      span_path_def split: option.splits)

lemma fill_spans_units: "fill_spans col xs y i c = fold stroke_unit (span_units col xs y i) c"
proof (induction col xs y i c rule: fill_spans.induct)
  case (1 col xs y i c)
  show ?case
  proof (cases "i < length xs")
    case True
    then show ?thesis
      using "1.IH" [OF True]
      by (subst fill_spans.simps, subst span_units.simps) (simp add: span_step)
  next
    case False
    then show ?thesis
      by (subst fill_spans.simps, subst span_units.simps) simp
  qed
qed

lemma fill_row_units: "fill_row h col es y c = fold stroke_unit (row_units h col es y) c"
  by (simp add: fill_row_def row_units_def fill_spans_units)

lemma fold_units_concat:
  "(\<And>x c. f x c = fold stroke_unit (g x) c) \<Longrightarrow>
   fold f xs c = fold stroke_unit (concat (map g xs)) c"
  by (induction xs arbitrary: c) simp_all

lemma fold_stroke_unit:
  "fold stroke_unit us c =
     (if us = [] then c
      else c\<lparr>strokeStyle := fst (last us), path := snd (last us),
              surface := surface c @ strokes us\<rparr>)"
proof (induction us arbitrary: c)
  case Nil
  then show ?case by simp
next
  case (Cons u us)
  then show ?case by (simp add: stroke_unit_def strokes_def)
qed

lemma clearRect_whole:
  "origin c = (1 / 2, 1 / 2) \<Longrightarrow>
   clearRect (- (1 / 2)) (- (1 / 2)) (of_nat (fst (bitmap c))) (of_nat (snd (bitmap c))) c
     = c\<lparr>surface := []\<rparr>"
  by (simp add: clearRect_def covers_def)

lemma repaint_twice:
  "fold stroke_unit us ((fold stroke_unit us (c\<lparr>surface := []\<rparr>))\<lparr>surface := []\<rparr>)
     = fold stroke_unit us (c\<lparr>surface := []\<rparr>)"
  by (cases "us = []") (simp_all add: fold_stroke_unit)

lemma fold_stroke_unit_origin: "origin (fold stroke_unit us c) = origin c"
  by (simp add: fold_stroke_unit)

lemma new_Canvas_origin: "origin (ctx (new_Canvas w h)) = (1 / 2, 1 / 2)"
  by (simp add: new_Canvas_def translate_def getContext_def)

lemma addPoint_origin: "origin (ctx (snd (addPoint h p cv))) = origin (ctx cv)"
  by (simp add: addPoint_def)

lemma addPolygon_origin: "origin (ctx (snd (addPolygon h p cv))) = origin (ctx cv)"
  by (simp add: addPolygon_def)

lemma Math_min_Min: "ys \<noteq> [] \<Longrightarrow> Math_min ys = Some (Min (set ys))"
proof (induction ys)
  case Nil
  then show ?case by simp
next
  case (Cons a ys)
  then show ?case by (cases "ys = []") simp_all
qed

lemma Math_max_Max: "ys \<noteq> [] \<Longrightarrow> Math_max ys = Some (Max (set ys))"
proof (induction ys)
  case Nil
  then show ?case by simp
next
  case (Cons a ys)
  then show ?case by (cases "ys = []") simp_all
qed

lemma map_upt_shift: "map f [0..<Suc n] = f 0 # map (\<lambda>j. f (Suc j)) [0..<n]"
  by (simp add: upt_conv_Cons map_Suc_upt [symmetric] del: upt_Suc)

lemma span_units_pair:
  "span_units col [a, b] y 0 = [(Rgba col, [MoveTo a y, LineTo b y])]"
  by (subst span_units.simps, subst span_units.simps) (simp add: span_path_def elem_at_def)

lemma fill_units_eq:
  "fill h poly c = map_option (\<lambda>us. fold stroke_unit us c) (fill_units h poly)"
proof -
  have "fold (fill_row h (color poly) (edges h (Polygon.points poly))) ys c
      = fold stroke_unit
          (concat (map (row_units h (color poly) (edges h (Polygon.points poly))) ys)) c" for ys
    by (rule fold_units_concat) (rule fill_row_units)
  then show ?thesis
    by (simp add: fill_eq fill_units_def option.map_comp comp_def)
qed

lemma fill_all_units:
  "fill_all h ps c = map_option (\<lambda>us. fold stroke_unit us c) (all_units h ps)"
proof (induction ps arbitrary: c)
  case Nil
  then show ?case by simp
next
  case (Cons p ps)
  show ?case
  proof (cases "fill_units h p")
    case None
    then show ?thesis by (simp add: fill_units_eq)
  next
    case (Some us)
    then show ?thesis
      by (simp add: fill_units_eq Cons option.map_comp comp_def)
  qed
qed

lemma draw_points_units:
  "fold (\<lambda>p. draw (h p) r) pts c
     = fold stroke_unit (map (\<lambda>p. (Css ''black'', [Arc (px (h p)) (py (h p)) r])) pts) c"
  by (induction pts arbitrary: c) (simp_all add: draw_unit)

lemma clear_and_draw_units:
  "clear_and_draw h cv =
     map_option
       (\<lambda>us. cv\<lparr>ctx := fold stroke_unit us
            (clearRect (- 1 / 2) (- 1 / 2) (of_nat (dom_width cv)) (of_nat (dom_height cv))
               (ctx cv))\<rparr>)
       (scene_units h cv)"
  by (simp add: clear_and_draw_def fill_all_units draw_points_units scene_units_def
      option.map_comp comp_def)

lemma scene_units_ctx [simp]: "scene_units h (cv\<lparr>ctx := c\<rparr>) = scene_units h cv"
  by (simp add: scene_units_def)

lemma clear_and_draw_constructed:
  "origin (ctx cv) = (1 / 2, 1 / 2) \<Longrightarrow>
   clear_and_draw h cv =
     map_option (\<lambda>us. cv\<lparr>ctx := fold stroke_unit us ((ctx cv)\<lparr>surface := []\<rparr>)\<rparr>)
       (scene_units h cv)"
  by (simp add: clear_and_draw_units dom_width_def dom_height_def clearRect_whole)

lemma clear_and_draw_origin:
  "clear_and_draw h cv = Some cv' \<Longrightarrow> origin (ctx cv') = origin (ctx cv)"
  by (auto simp: clear_and_draw_units fold_stroke_unit_origin clearRect_def)

subsection \<open>The scan lines of fill\<close>

lemma scan_lines_below:
  assumes "scan_lines y m = Some ys"
  shows "\<forall>z \<in> set ys. z < m"
proof (rule scan_lines.raw_induct [where P = "\<lambda>y m ys. \<forall>z \<in> set ys. z < m", OF _ assms])
  fix f y m ys
  assume IH: "\<And>y m ys. f y m = Some ys \<Longrightarrow> \<forall>z \<in> set ys. z < m"
    and eq: "(if y < m then Option.bind (f (js_increment y) m) (\<lambda>ys. Some (y # ys)) else Some [])
      = Some ys"
  show "\<forall>z \<in> set ys. z < m"
  proof (cases "y < m")
    case True
    with eq obtain zs where zs: "f (js_increment y) m = Some zs" "ys = y # zs"
      by (auto simp: bind_eq_Some_conv)
    with IH [OF zs(1)] True show ?thesis by simp
  next
    case False
    with eq show ?thesis by simp
  qed
qed


lemma scan_lines_int:
  assumes "- (2 ^ 53) \<le> a" "m \<le> 2 ^ 53"
  shows "scan_lines (of_int a) m = Some (map of_int [a..\<lceil>m\<rceil> - 1])"
  using assms
proof (induction "nat (\<lceil>m\<rceil> - a)" arbitrary: a)
  case 0
  then have "\<lceil>m\<rceil> \<le> a" by simp
  then have "\<not> of_int a < m" by (simp add: ceiling_le_iff not_less)
  moreover from \<open>\<lceil>m\<rceil> \<le> a\<close> have "[a..\<lceil>m\<rceil> - 1] = []" by simp
  ultimately show ?case
    by (subst scan_lines.simps) simp
next
  case (Suc n)
  then have lt: "a < \<lceil>m\<rceil>" by simp
  then have am: "of_int a < m" by (simp add: less_ceiling_iff)
  with Suc.prems(2) have "(of_int a :: rat) < 2 ^ 53" by simp
  then have "(of_int a :: rat) < of_int (2 ^ 53)" by simp
  then have a53: "a < 2 ^ 53" by (simp only: of_int_less_iff)
  have inc: "js_increment (of_int a) = of_int (a + 1)"
    using Suc.prems(1) a53 by (rule js_increment_of_int)
  have "n = nat (\<lceil>m\<rceil> - (a + 1))" using Suc.hyps(2) by simp
  moreover have "- (2 ^ 53) \<le> a + 1" using Suc.prems(1) by simp
  ultimately have "scan_lines (of_int (a + 1)) m = Some (map of_int [a + 1..\<lceil>m\<rceil> - 1])"
    using Suc.prems(2) by (rule Suc.hyps(1))
  moreover have "[a..\<lceil>m\<rceil> - 1] = a # [a + 1..\<lceil>m\<rceil> - 1]"
    using lt by (simp add: upto_rec1)
  ultimately show ?case
    using am by (subst scan_lines.simps) (simp add: inc)
qed

lemma scan_lines_range:
  assumes "- (2 ^ 53) \<le> y + 1" "m + 1 \<le> 2 ^ 53"
  shows "\<exists>ys. scan_lines y m = Some ys \<and> sorted ys \<and> distinct ys
           \<and> (\<forall>z \<in> set ys. y \<le> z \<and> z < m) \<and> (y < m \<longrightarrow> hd ys = y)"
  using assms
proof (induction "nat \<lceil>2 * (m - y)\<rceil>" arbitrary: y rule: less_induct)
  case less
  show ?case
  proof (cases "y < m")
    case False
    then have "scan_lines y m = Some []"
      by (subst scan_lines.simps) simp
    with False show ?thesis by simp
  next
    case True
    let ?y' = "js_increment y"
    have "\<bar>y + 1\<bar> \<le> 2 ^ 53"
      using less.prems True by (simp add: abs_le_iff)
    then have pr: "y + 1 / 2 \<le> ?y'" by (rule js_increment_progress)
    have "2 * (m - ?y') \<le> 2 * (m - y) - 1"
      using pr by simp
    then have "\<lceil>2 * (m - ?y')\<rceil> \<le> \<lceil>2 * (m - y)\<rceil> - 1"
      by (metis ceiling_mono ceiling_diff_one)
    moreover have "0 < \<lceil>2 * (m - y)\<rceil>"
      using True by (simp add: zero_less_ceiling)
    ultimately have "nat \<lceil>2 * (m - ?y')\<rceil> < nat \<lceil>2 * (m - y)\<rceil>"
      by linarith
    moreover have "- (2 ^ 53) \<le> ?y' + 1"
      using pr less.prems(1) by linarith
    ultimately obtain zs where zs: "scan_lines ?y' m = Some zs" "sorted zs" "distinct zs"
      "\<forall>z \<in> set zs. ?y' \<le> z \<and> z < m"
      using less.hyps [of ?y'] less.prems(2) by blast
    have "scan_lines y m = Some (y # zs)"
      using True zs(1) by (subst scan_lines.simps) simp
    moreover have "\<forall>z \<in> set zs. y < z"
      using zs(4) pr by fastforce
    ultimately show ?thesis
      using True zs by (intro exI [of _ "y # zs"]) (auto simp: less_imp_le)
  qed
qed

lemma rows_of_ints:
  "set (map rat_of_int [a..\<lceil>m\<rceil> - 1]) = {y \<in> \<int>. of_int a \<le> y \<and> y < m}"
proof (intro set_eqI iffI)
  fix y assume "y \<in> set (map rat_of_int [a..\<lceil>m\<rceil> - 1])"
  then obtain i where i: "y = of_int i" "a \<le> i" "i < \<lceil>m\<rceil>" by auto
  then have "of_int i < m" by (simp add: less_ceiling_iff)
  with i show "y \<in> {y \<in> \<int>. of_int a \<le> y \<and> y < m}" by simp
next
  fix y assume "y \<in> {y \<in> \<int>. of_int a \<le> y \<and> y < m}"
  then obtain i where i: "y = of_int i" "rat_of_int a \<le> of_int i" "of_int i < m"
    by (auto elim!: Ints_cases)
  then have "a \<le> i" "i < \<lceil>m\<rceil>" by (simp_all add: less_ceiling_iff)
  with i(1) show "y \<in> set (map rat_of_int [a..\<lceil>m\<rceil> - 1])" by auto
qed

lemma rows_of_ints_sorted:
  "sorted (map rat_of_int [a..b]) \<and> distinct (map rat_of_int [a..b])"
  by (simp add: sorted_map distinct_map inj_on_def sorted_wrt_mono_rel [OF _ sorted_upto])

lemma fill_scan_lines_eq:
  "Polygon.points poly \<noteq> [] \<Longrightarrow> fill_scan_lines h poly = scan_lines (minY h poly) (maxY h poly)"
  by (simp add: fill_scan_lines_def minY_def maxY_def ys_of_def Math_min_Min Math_max_Max)

lemma fill_rows_int:
  assumes "Polygon.points poly \<noteq> []" "minY h poly = of_int i" "- (2 ^ 53) \<le> i"
    "maxY h poly \<le> 2 ^ 53"
  shows "fill_scan_lines h poly = Some (map of_int [i..\<lceil>maxY h poly\<rceil> - 1])"
  using assms scan_lines_int [of i "maxY h poly"] by (simp add: fill_scan_lines_eq)

lemma fill_scan_lines_returns:
  assumes "Polygon.points p = [] \<or> (- (2 ^ 53) \<le> minY h p + 1 \<and> maxY h p + 1 \<le> 2 ^ 53)"
  shows "fill_scan_lines h p \<noteq> None"
proof (cases "Polygon.points p = []")
  case True
  then show ?thesis by (simp add: fill_scan_lines_def ys_of_def)
next
  case False
  with assms have "- (2 ^ 53) \<le> minY h p + 1" "maxY h p + 1 \<le> 2 ^ 53" by simp_all
  from scan_lines_range [OF this] show ?thesis
    by (auto simp: fill_scan_lines_eq [OF False])
qed

lemma triangle_extent: "minY triangle_heap triangle = 0" "maxY triangle_heap triangle = 10"
  by (simp_all add: minY_def maxY_def triangle_def triangle_heap_def ys_of_def)

lemma triangle_rows:
  "fill_scan_lines triangle_heap triangle = Some [0, 1, 2, 3, 4, 5, 6, 7, 8, 9]"
proof -
  have "Polygon.points triangle \<noteq> []" by (simp add: triangle_def)
  then have "fill_scan_lines triangle_heap triangle = scan_lines (of_int 0) 10"
    by (simp add: fill_scan_lines_eq triangle_extent)
  also have "\<dots> = Some (map of_int [0..\<lceil>10::rat\<rceil> - 1])"
    by (rule scan_lines_int) simp_all
  also have "[0..\<lceil>10::rat\<rceil> - 1] = [0, 1, 2, 3, 4, 5, 6, 7, 8, 9]"
    by (simp add: upto_rec1)
  finally show ?thesis by simp
qed

lemma half_rows: "fill_scan_lines half_heap half_triangle = Some [1 / 2, 3 / 2]"
proof -
  have "fill_scan_lines half_heap half_triangle = scan_lines (1 / 2) (5 / 2)"
    by (simp add: fill_scan_lines_def half_triangle_def half_heap_def ys_of_def)
  also have "\<dots> = Some [1 / 2, 3 / 2]"
    by (subst scan_lines.simps, subst scan_lines.simps, subst scan_lines.simps)
      (simp add: js_increment_halves)
  finally show ?thesis .
qed

text \<open>
  C2, as the code has it. \<open>fill\<close> runs the body of its scan loop once for each row of
  \<open>fill_scan_lines\<close>: \<open>minY\<close> first and, after a row \<open>y\<close>, the value that \<^verbatim>\<open>y++\<close> gives
  (the double nearest to \<open>y + 1\<close>), as long as it is below \<open>maxY\<close>; \<open>minY\<close> and \<open>maxY\<close>
  are the least and the greatest \<open>y\<close> of the vertices, and a polygon without vertices
  has no row. When \<open>minY\<close> is an integer and the vertices lie between \<open>-2^53\<close> and
  \<open>2^53\<close>, the loop ends and its rows are exactly the integers \<open>y\<close> with
  \<open>minY \<le> y < maxY\<close>, in ascending order. For every \<open>minY\<close>, when \<open>-2^53 \<le> minY + 1\<close>
  and \<open>maxY + 1 \<le> 2^53\<close>, the loop ends, the rows ascend from \<open>minY\<close>, and none lies
  below \<open>minY\<close> or at or above \<open>maxY\<close>.
\<close>

theorem fill_scan_lines_range:
  "fill h poly c =
     map_option (\<lambda>ys. fold (fill_row h (color poly) (edges h (Polygon.points poly))) ys c)
       (fill_scan_lines h poly)
   \<and> (Polygon.points poly = [] \<longrightarrow> fill_scan_lines h poly = Some [])
   \<and> (Polygon.points poly \<noteq> [] \<and> minY h poly \<in> \<int>
        \<and> - (2 ^ 53) \<le> minY h poly \<and> maxY h poly \<le> 2 ^ 53 \<longrightarrow>
        (\<exists>ys. fill_scan_lines h poly = Some ys \<and> sorted ys \<and> distinct ys
           \<and> set ys = {y \<in> \<int>. minY h poly \<le> y \<and> y < maxY h poly}))
   \<and> (Polygon.points poly \<noteq> []
        \<and> - (2 ^ 53) \<le> minY h poly + 1 \<and> maxY h poly + 1 \<le> 2 ^ 53 \<longrightarrow>
        (\<exists>ys. fill_scan_lines h poly = Some ys \<and> sorted ys \<and> distinct ys
           \<and> (\<forall>y \<in> set ys. minY h poly \<le> y \<and> y < maxY h poly)
           \<and> (minY h poly < maxY h poly \<longrightarrow> hd ys = minY h poly)))"
proof (intro conjI impI)
  show "fill h poly c =
     map_option (\<lambda>ys. fold (fill_row h (color poly) (edges h (Polygon.points poly))) ys c)
       (fill_scan_lines h poly)"
    by (rule fill_eq)
  show "fill_scan_lines h poly = Some []" if "Polygon.points poly = []"
    using that by (simp add: fill_scan_lines_def ys_of_def)
  show "\<exists>ys. fill_scan_lines h poly = Some ys \<and> sorted ys \<and> distinct ys
           \<and> set ys = {y \<in> \<int>. minY h poly \<le> y \<and> y < maxY h poly}"
    if a: "Polygon.points poly \<noteq> [] \<and> minY h poly \<in> \<int>
        \<and> - (2 ^ 53) \<le> minY h poly \<and> maxY h poly \<le> 2 ^ 53"
  proof -
    from a obtain i where i: "minY h poly = of_int i" by (auto elim!: Ints_cases)
    with a have "rat_of_int (- (2 ^ 53)) \<le> of_int i" by simp
    then have "- (2 ^ 53) \<le> i" by (simp only: of_int_le_iff)
    with a have "scan_lines (of_int i) (maxY h poly)
        = Some (map of_int [i..\<lceil>maxY h poly\<rceil> - 1])"
      by (intro scan_lines_int) simp_all
    with a i have "fill_scan_lines h poly = Some (map of_int [i..\<lceil>maxY h poly\<rceil> - 1])"
      by (simp add: fill_scan_lines_eq)
    then show ?thesis
      using rows_of_ints [of i "maxY h poly"] rows_of_ints_sorted [of i "\<lceil>maxY h poly\<rceil> - 1"]
      by (simp add: i)
  qed
  show "\<exists>ys. fill_scan_lines h poly = Some ys \<and> sorted ys \<and> distinct ys
           \<and> (\<forall>y \<in> set ys. minY h poly \<le> y \<and> y < maxY h poly)
           \<and> (minY h poly < maxY h poly \<longrightarrow> hd ys = minY h poly)"
    if a: "Polygon.points poly \<noteq> []
        \<and> - (2 ^ 53) \<le> minY h poly + 1 \<and> maxY h poly + 1 \<le> 2 ^ 53"
    using a scan_lines_range [of "minY h poly" "maxY h poly"]
    by (simp add: fill_scan_lines_eq)
qed

theorem fill_scan_lines_range_witness:
  "Polygon.points triangle \<noteq> [] \<and> minY triangle_heap triangle \<in> \<int>
   \<and> - (2 ^ 53) \<le> minY triangle_heap triangle \<and> maxY triangle_heap triangle \<le> 2 ^ 53
   \<and> - (2 ^ 53) \<le> minY triangle_heap triangle + 1 \<and> maxY triangle_heap triangle + 1 \<le> 2 ^ 53
   \<and> fill_scan_lines triangle_heap triangle = Some [0, 1, 2, 3, 4, 5, 6, 7, 8, 9]
   \<and> set [0, 1, 2, 3, 4, 5, 6, 7, 8, 9 :: rat] = {y \<in> \<int>. 0 \<le> y \<and> y < 10}
   \<and> fill triangle_heap triangle (getContext 100 50) =
       Some (fold (fill_row triangle_heap (color triangle)
                     (edges triangle_heap (Polygon.points triangle)))
               [0, 1, 2, 3, 4, 5, 6, 7, 8, 9] (getContext 100 50))"
proof -
  have ne: "Polygon.points triangle \<noteq> []"
    by (simp add: triangle_def)
  have hyp: "Polygon.points triangle \<noteq> [] \<and> minY triangle_heap triangle \<in> \<int>
      \<and> - (2 ^ 53) \<le> minY triangle_heap triangle \<and> maxY triangle_heap triangle \<le> 2 ^ 53"
    using ne by (simp add: triangle_extent)
  have hyp2: "- (2 ^ 53) \<le> minY triangle_heap triangle + 1
      \<and> maxY triangle_heap triangle + 1 \<le> 2 ^ 53"
    by (simp add: triangle_extent)
  note t = fill_scan_lines_range [of triangle_heap triangle "getContext 100 50"]
  from t hyp obtain ys where "fill_scan_lines triangle_heap triangle = Some ys"
    "set ys = {y \<in> \<int>. minY triangle_heap triangle \<le> y \<and> y < maxY triangle_heap triangle}"
    by blast
  then have s: "set [0, 1, 2, 3, 4, 5, 6, 7, 8, 9 :: rat] = {y \<in> \<int>. 0 \<le> y \<and> y < 10}"
    by (simp add: triangle_rows triangle_extent)
  from t have "fill triangle_heap triangle (getContext 100 50) =
       Some (fold (fill_row triangle_heap (color triangle)
                     (edges triangle_heap (Polygon.points triangle)))
               [0, 1, 2, 3, 4, 5, 6, 7, 8, 9] (getContext 100 50))"
    by (simp add: triangle_rows)
  with hyp hyp2 s show ?thesis
    by (simp add: triangle_rows)
qed

text \<open>
  C2, as stated, fails when \<open>minY\<close> is not an integer: for the vertices \<open>(0, 0.5)\<close>,
  \<open>(4, 0.5)\<close>, \<open>(2, 2.5)\<close> the integer \<open>1\<close> lies in \<open>[minY, maxY)\<close> and is not a scan
  line; the scan lines are \<open>0.5\<close> and \<open>1.5\<close>.
\<close>

theorem fill_scan_lines_not_integers:
  "minY half_heap half_triangle = 1 / 2 \<and> maxY half_heap half_triangle = 5 / 2
   \<and> (1::rat) \<in> \<int> \<and> minY half_heap half_triangle \<le> 1 \<and> 1 < maxY half_heap half_triangle
   \<and> fill_scan_lines half_heap half_triangle = Some [1 / 2, 3 / 2]
   \<and> 1 \<notin> set [1 / 2, 3 / 2 :: rat]
   \<and> fill half_heap half_triangle (getContext 100 50) =
       Some (fill_row half_heap (color half_triangle)
               (edges half_heap (Polygon.points half_triangle)) (3 / 2)
              (fill_row half_heap (color half_triangle)
                 (edges half_heap (Polygon.points half_triangle)) (1 / 2) (getContext 100 50)))"
proof -
  have m: "minY half_heap half_triangle = 1 / 2" "maxY half_heap half_triangle = 5 / 2"
    by (simp_all add: minY_def maxY_def half_triangle_def half_heap_def ys_of_def)
  show ?thesis
    by (simp add: m half_rows fill_eq)
qed

text \<open>
  Two more effects of the rounded step. From the double \<open>0.3\<close> the step \<^verbatim>\<open>y++\<close> gives
  the double \<open>1.3\<close>, so between these two the loop has the single row \<open>0.3\<close>. From
  \<open>2^53\<close> the step gives \<open>2^53\<close> again, so a loop that starts there below \<open>maxY\<close> does
  not end.
\<close>

lemma scan_lines_three_tenths:
  "scan_lines (5404319552844595 / 18014398509481984) (5854679515581645 / 4503599627370496)
     = Some [5404319552844595 / 18014398509481984]"
  by (subst scan_lines.simps, subst scan_lines.simps)
    (simp add: js_increment_three_tenths)



subsection \<open>The spans of a row\<close>

lemma painted_units: "painted c (fold stroke_unit us c) = strokes us"
  by (simp add: painted_def fold_stroke_unit strokes_def)

lemma surface_kept:
  "take (length (surface c)) (surface (fold stroke_unit us c)) = surface c"
  by (simp add: fold_stroke_unit)

lemma spans_of_span_units:
  "spans_of (strokes (span_units col xs y i))
     = map (\<lambda>j. (Rgba col, (xs ! (i + 2 * j), y), (xs ! (i + 2 * j + 1), y)))
         [0..<(length xs - i) div 2]"
proof (induction col xs y i rule: span_units.induct)
  case (1 col xs y i)
  show ?case
  proof (cases "i < length xs")
    case False
    then show ?thesis
      by (subst span_units.simps) (simp add: strokes_def)
  next
    case True
    note IH = "1.IH" [OF True]
    show ?thesis
    proof (cases "i + 1 < length xs")
      case True
      then have n: "(length xs - i) div 2 = Suc ((length xs - (i + 2)) div 2)"
        by presburger
      show ?thesis
        using True \<open>i < length xs\<close> IH
        by (subst span_units.simps)
          (simp add: n map_upt_shift strokes_def span_path_def elem_at_def del: upt_Suc)
    next
      case False
      with True have n: "(length xs - i) div 2 = 0" "\<not> i + 2 < length xs"
        by presburger+
      show ?thesis
        using False True n
        by (subst span_units.simps, subst span_units.simps)
          (simp add: strokes_def span_path_def elem_at_def)
    qed
  qed
qed

lemma spans_of_append: "spans_of (ps @ qs) = spans_of ps @ spans_of qs"
  by (induction ps rule: spans_of.induct) simp_all

lemma strokes_append: "strokes (us @ vs) = strokes us @ strokes vs"
  by (simp add: strokes_def)

lemma spans_of_rows:
  "spans_of (strokes (concat (map (row_units h col es) ys)))
     = concat (map (\<lambda>y. pair_spans col (intersection_x_coordinates h es y) y) ys)"
proof (induction ys)
  case Nil
  then show ?case by (simp add: strokes_def)
next
  case (Cons y ys)
  have "spans_of (strokes (row_units h col es y))
      = pair_spans col (intersection_x_coordinates h es y) y"
    using spans_of_span_units [of col "intersection_x_coordinates h es y" y 0]
    by (simp add: row_units_def pair_spans_def)
  with Cons show ?case
    by (simp add: strokes_append spans_of_append)
qed

lemma span_loop_pairs:
  "spans_of (painted c (fill_spans col xs y 0 c)) = pair_spans col xs y"
  using spans_of_span_units [of col xs y 0]
  by (simp add: fill_spans_units painted_units pair_spans_def)

lemma triangle_edges: "edges triangle_heap (Polygon.points triangle) = [(1, 2), (0, 2)]"
  by (simp add: edges_def triangle_def triangle_heap_def sort_by_y_def upt_rec)

lemma triangle_row:
  assumes "0 \<le> y" "y < 10"
  shows "intersection_x_coordinates triangle_heap [(1, 2), (0, 2)] y = [y / 2, 10 - y / 2]"
  using assms
  by (simp add: intersection_x_coordinates_def getIntersection_def triangle_heap_def)

text \<open>
  C3. What \<open>fill\<close> paints is, row by row, the spans between the entries \<open>2j\<close> and
  \<open>2j + 1\<close> of the row's sorted list of intersections, and nothing painted before is
  lost. When a list has odd length \<open>2k + 1\<close> the span loop paints exactly the \<open>k\<close>
  spans with \<open>j < k\<close>: the last entry is paired with the read past the end, which is
  \<^verbatim>\<open>undefined\<close>, \<open>lineTo\<close> ignores it, and the stroke holds no segment. The span loop
  has no failing path, and \<open>fill\<close> none but a scan loop that does not end.
\<close>

theorem fill_pairs_intersections:
  "map_option (\<lambda>c'. spans_of (painted c c')) (fill h poly c)
     = map_option
         (\<lambda>ys. concat (map (\<lambda>y. pair_spans (color poly)
              (intersection_x_coordinates h (edges h (Polygon.points poly)) y) y) ys))
         (fill_scan_lines h poly)
   \<and> map_option (\<lambda>c'. take (length (surface c)) (surface c')) (fill h poly c)
       = map_option (\<lambda>ys. surface c) (fill_scan_lines h poly)
   \<and> (length xs = 2 * k + 1 \<longrightarrow>
        spans_of (painted c (fill_spans col xs y 0 c)) = pair_spans col xs y
        \<and> pair_spans col xs y
          = map (\<lambda>j. (Rgba col, (xs ! (2 * j), y), (xs ! (2 * j + 1), y))) [0..<k])"
proof (intro conjI impI)
  show "map_option (\<lambda>c'. spans_of (painted c c')) (fill h poly c)
     = map_option
         (\<lambda>ys. concat (map (\<lambda>y. pair_spans (color poly)
              (intersection_x_coordinates h (edges h (Polygon.points poly)) y) y) ys))
         (fill_scan_lines h poly)"
    by (simp add: fill_units_eq fill_units_def option.map_comp comp_def painted_units
        spans_of_rows)
  show "map_option (\<lambda>c'. take (length (surface c)) (surface c')) (fill h poly c)
       = map_option (\<lambda>ys. surface c) (fill_scan_lines h poly)"
    by (simp add: fill_units_eq fill_units_def option.map_comp comp_def surface_kept)
  show "spans_of (painted c (fill_spans col xs y 0 c)) = pair_spans col xs y"
    by (rule span_loop_pairs)
  show "pair_spans col xs y
          = map (\<lambda>j. (Rgba col, (xs ! (2 * j), y), (xs ! (2 * j + 1), y))) [0..<k]"
    if "length xs = 2 * k + 1"
    using that by (simp add: pair_spans_def)
qed

theorem fill_pairs_intersections_witness:
  "length [1, 2, 3 :: rat] = 2 * 1 + 1
   \<and> spans_of (painted (getContext 100 50)
        (fill_spans [255, 0, 0, 1] [1, 2, 3] 7 0 (getContext 100 50)))
       = [(Rgba [255, 0, 0, 1], (1, 7), (2, 7))]
   \<and> pair_spans [255, 0, 0, 1] [1, 2, 3] 7 = [(Rgba [255, 0, 0, 1], (1, 7), (2, 7))]
   \<and> map_option (\<lambda>c'. spans_of (painted (getContext 100 50) c'))
        (fill triangle_heap triangle (getContext 100 50))
       = Some (concat (map (\<lambda>y. pair_spans (color triangle)
            (intersection_x_coordinates triangle_heap
               (edges triangle_heap (Polygon.points triangle)) y) y)
            [0, 1, 2, 3, 4, 5, 6, 7, 8, 9]))
   \<and> pair_spans (color triangle)
        (intersection_x_coordinates triangle_heap
           (edges triangle_heap (Polygon.points triangle)) 5) 5
       = [(Rgba [255, 0, 0, 1], (5 / 2, 5), (15 / 2, 5))]"
proof -
  note t = fill_pairs_intersections
    [of "getContext 100 50" triangle_heap triangle "[1, 2, 3]" 1 "[255, 0, 0, 1]" 7]
  have a: "pair_spans [255, 0, 0, 1] [1, 2, 3] 7 = [(Rgba [255, 0, 0, 1], (1, 7), (2, 7))]"
    using t by (simp add: upt_rec)
  have l: "spans_of (painted (getContext 100 50)
        (fill_spans [255, 0, 0, 1] [1, 2, 3] 7 0 (getContext 100 50)))
       = pair_spans [255, 0, 0, 1] [1, 2, 3] 7"
    using t by simp
  have r5: "intersection_x_coordinates triangle_heap [(1, 2), (0, 2)] 5 = [5 / 2, 15 / 2]"
    using triangle_row [of 5] by simp
  have b: "pair_spans (color triangle)
        (intersection_x_coordinates triangle_heap
           (edges triangle_heap (Polygon.points triangle)) 5) 5
       = [(Rgba [255, 0, 0, 1], (5 / 2, 5), (15 / 2, 5))]"
    unfolding triangle_edges r5 by (simp add: pair_spans_def triangle_def upt_rec)
  have f: "map_option (\<lambda>c'. spans_of (painted (getContext 100 50) c'))
        (fill triangle_heap triangle (getContext 100 50))
       = Some (concat (map (\<lambda>y. pair_spans (color triangle)
            (intersection_x_coordinates triangle_heap
               (edges triangle_heap (Polygon.points triangle)) y) y)
            [0, 1, 2, 3, 4, 5, 6, 7, 8, 9]))"
    using t by (simp add: triangle_rows)
  from a l b f show ?thesis
    by (simp only: simp_thms) simp
qed

subsection \<open>The triangle\<close>

lemma triangle_row_units:
  assumes "0 \<le> y" "y < 10"
  shows "row_units triangle_heap [255, 0, 0, 1] [(1, 2), (0, 2)] y
           = [(Rgba [255, 0, 0, 1], [MoveTo (y / 2) y, LineTo (10 - y / 2) y])]"
  by (simp only: row_units_def triangle_row [OF assms] span_units_pair)

lemma concat_singletons: "concat (map (\<lambda>y. [g y]) ys) = map g ys"
  by (induction ys) simp_all

lemma triangle_units:
  "fill_units triangle_heap triangle =
     Some (map (\<lambda>y. (Rgba [255, 0, 0, 1], [MoveTo (y / 2) y, LineTo (10 - y / 2) y]))
             [0, 1, 2, 3, 4, 5, 6, 7, 8, 9])"
proof -
  let ?rows = "[0, 1, 2, 3, 4, 5, 6, 7, 8, 9 :: rat]"
  let ?unit = "\<lambda>y. (Rgba [255, 0, 0, 1], [MoveTo (y / 2) y, LineTo (10 - y / 2) y])"
  have col: "color triangle = [255, 0, 0, 1]" by (simp add: triangle_def)
  have r: "row_units triangle_heap [255, 0, 0, 1] [(1, 2), (0, 2)] y = [?unit y]"
    if "y \<in> set ?rows" for y
    using that triangle_row_units [of y] by auto
  have "map (row_units triangle_heap [255, 0, 0, 1] [(1, 2), (0, 2)]) ?rows
      = map (\<lambda>y. [?unit y]) ?rows"
    by (rule map_cong [OF refl]) (rule r)
  then have "concat (map (row_units triangle_heap [255, 0, 0, 1] [(1, 2), (0, 2)]) ?rows)
      = map ?unit ?rows"
    by (simp only: concat_singletons)
  then show ?thesis
    unfolding fill_units_def triangle_rows triangle_edges col by simp
qed

text \<open>
  C6. For the triangle \<open>(0,0)\<close>, \<open>(10,0)\<close>, \<open>(5,10)\<close>, \<open>fill\<close> returns and has painted
  one stroke with one segment for each of the scan lines \<open>0\<close> to \<open>9\<close>. The scan line
  \<open>y = 5\<close> has the two intersections \<open>2.5\<close> and \<open>7.5\<close> and its span runs from \<open>2.5\<close> to
  \<open>7.5\<close>. The scan line \<open>y = 0\<close>, the first one, has the intersections \<open>0\<close> and \<open>10\<close>,
  one from each slanted edge at its lower end, and its span runs from \<open>0\<close> to \<open>10\<close>;
  the horizontal edge is not among the edges and has no intersection.
\<close>

theorem triangle_fill:
  "map_option (painted c) (fill triangle_heap triangle c) =
     Some [Stroke (Rgba [255, 0, 0, 1]) [MoveTo 0 0, LineTo 10 0],
           Stroke (Rgba [255, 0, 0, 1]) [MoveTo (1 / 2) 1, LineTo (19 / 2) 1],
           Stroke (Rgba [255, 0, 0, 1]) [MoveTo 1 2, LineTo 9 2],
           Stroke (Rgba [255, 0, 0, 1]) [MoveTo (3 / 2) 3, LineTo (17 / 2) 3],
           Stroke (Rgba [255, 0, 0, 1]) [MoveTo 2 4, LineTo 8 4],
           Stroke (Rgba [255, 0, 0, 1]) [MoveTo (5 / 2) 5, LineTo (15 / 2) 5],
           Stroke (Rgba [255, 0, 0, 1]) [MoveTo 3 6, LineTo 7 6],
           Stroke (Rgba [255, 0, 0, 1]) [MoveTo (7 / 2) 7, LineTo (13 / 2) 7],
           Stroke (Rgba [255, 0, 0, 1]) [MoveTo 4 8, LineTo 6 8],
           Stroke (Rgba [255, 0, 0, 1]) [MoveTo (9 / 2) 9, LineTo (11 / 2) 9]]
   \<and> fill_scan_lines triangle_heap triangle = Some [0, 1, 2, 3, 4, 5, 6, 7, 8, 9]
   \<and> edges triangle_heap (Polygon.points triangle) = [(1, 2), (0, 2)]
   \<and> getIntersection (triangle_heap 0) (triangle_heap 1) 0 = None
   \<and> getIntersection (triangle_heap 1) (triangle_heap 2) 0 = Some 10
   \<and> getIntersection (triangle_heap 0) (triangle_heap 2) 0 = Some 0
   \<and> intersection_x_coordinates triangle_heap (edges triangle_heap (Polygon.points triangle)) 0
       = [0, 10]
   \<and> intersection_x_coordinates triangle_heap (edges triangle_heap (Polygon.points triangle)) 5
       = [5 / 2, 15 / 2]"
proof -
  have p: "map_option (painted c) (fill triangle_heap triangle c)
      = map_option strokes (fill_units triangle_heap triangle)"
    by (simp add: fill_units_eq option.map_comp comp_def painted_units)
  have g: "getIntersection (triangle_heap 0) (triangle_heap 1) 0 = None"
    "getIntersection (triangle_heap 1) (triangle_heap 2) 0 = Some 10"
    "getIntersection (triangle_heap 0) (triangle_heap 2) 0 = Some 0"
    by (simp_all add: getIntersection_def triangle_heap_def)
  have r0: "intersection_x_coordinates triangle_heap [(1, 2), (0, 2)] 0 = [0, 10]"
    using triangle_row [of 0] by simp
  have r5: "intersection_x_coordinates triangle_heap [(1, 2), (0, 2)] 5 = [5 / 2, 15 / 2]"
    using triangle_row [of 5] by simp
  show ?thesis
    unfolding p triangle_units triangle_rows triangle_edges g r0 r5
    by (simp add: strokes_def)
qed

subsection \<open>Convex polygons: one span in every row\<close>

lemma line_x_sym: "py a \<noteq> py b \<Longrightarrow> line_x a b y = line_x b a y"
  by (simp add: line_x_def field_simps)





lemma getIntersection_sort_by_y:
  assumes "py (h p1) \<noteq> py (h p2)"
  shows "getIntersection (h (fst (sort_by_y h (p1, p2)))) (h (snd (sort_by_y h (p1, p2)))) y
           = (if goes_up (h p1) (h p2) y \<or> goes_up (h p2) (h p1) y
              then Some (line_x (h p1) (h p2) y) else None)"
  using assms line_x_sym [OF assms, of y]
  by (auto simp: sort_by_y_def getIntersection_def goes_up_def line_x_def)

lemma not_NaN_edges_from:
  "not_NaN (map (\<lambda>e. getIntersection (h (fst e)) (h (snd e)) y) (edges_from h ps js))
     = map (edge_x h ps y) (filter (crosses h ps y) js)"
proof (induction js)
  case Nil
  then show ?case by simp
next
  case (Cons i js)
  show ?case
  proof (cases "py (h (ps ! i)) = py (h (ps ! (Suc i mod length ps)))")
    case True
    then have "\<not> crosses h ps y i"
      by (auto simp: crosses_def up_edge_def down_edge_def goes_up_def)
    with True Cons show ?thesis by simp
  next
    case False
    then show ?thesis
      using Cons getIntersection_sort_by_y [of h "ps ! i" "ps ! (Suc i mod length ps)" y]
      by (simp add: crosses_def up_edge_def down_edge_def edge_x_def)
  qed
qed

lemma intersections_filter:
  "intersection_x_coordinates h (edges h ps) y
     = sort (map (edge_x h ps y) (filter (crosses h ps y) [0..<length ps]))"
  by (simp add: intersection_x_coordinates_def edges_def not_NaN_edges_from)





lemma side_first [simp]: "side a b (coords a) = 0"
  by (simp add: side_def coords_def)

lemma side_second [simp]: "side a b (coords b) = 0"
  by (simp add: side_def coords_def algebra_simps)





















































lemma square_not_strict: "\<not> strictly_convex square_heap (Polygon.points square)"
proof -
  have "edge_side square_heap [0, 1, 4, 2, 3] 1 (coords (square_heap ([0, 1, 4, 2, 3] ! 3))) = 0"
    by (simp add: edge_side_def side_def coords_def square_heap_def)
  moreover have "0 < s * edge_side square_heap [0, 1, 4, 2, 3] 1
      (coords (square_heap ([0, 1, 4, 2, 3] ! 3)))"
    if "convex_with s square_heap [0, 1, 4, 2, 3]" for s
    using that [unfolded convex_with_def, rule_format, of 1 3] by simp
  ultimately have "\<not> convex_with s square_heap [0, 1, 4, 2, 3]" for s
    by (intro notI) fastforce
  then show ?thesis by (simp add: strictly_convex_def square_def)
qed










subsection \<open>The number of intersections of a row\<close>

text \<open>
  Around the loop of vertices the edges that cross a row from below alternate with
  those that cross it from above, so every row of every polygon has an even number of
  intersections: a list of intersections of odd length does not come from \<open>fill\<close>
  itself when the coordinates are numbers.
\<close>

lemma sum_next_index:
  fixes f :: "nat \<Rightarrow> nat"
  shows "(\<Sum>i<n. f (Suc i mod n)) = (\<Sum>i<n. f i)"
proof (cases n)
  case 0
  then show ?thesis by simp
next
  case (Suc m)
  have "(\<Sum>i<Suc m. f (Suc i mod Suc m)) = (\<Sum>i<m. f (Suc i mod Suc m)) + f 0"
    by simp
  also have "(\<Sum>i<m. f (Suc i mod Suc m)) = (\<Sum>i<m. f (Suc i))"
    by (rule sum.cong) simp_all
  also have "(\<Sum>i<m. f (Suc i)) + f 0 = (\<Sum>i<Suc m. f i)"
    by (simp only: sum.lessThan_Suc_shift add.commute)
  finally show ?thesis
    using Suc by simp
qed

lemma crossings_even: "even (length (filter (crosses h ps y) [0..<length ps]))"
proof -
  let ?n = "length ps"
  let ?f = "\<lambda>i. if y < py (h (ps ! i)) then 1 else (0::nat)"
  let ?g = "\<lambda>i. ?f i + ?f (Suc i mod ?n)"
  have odd: "odd (?g i) \<longleftrightarrow> crosses h ps y i" for i
    by (auto simp: crosses_def up_edge_def down_edge_def goes_up_def not_less)
  have "(\<Sum>i<?n. ?g i) = (\<Sum>i<?n. ?f i) + (\<Sum>i<?n. ?f (Suc i mod ?n))"
    by (simp add: sum.distrib)
  also have "(\<Sum>i<?n. ?f (Suc i mod ?n)) = (\<Sum>i<?n. ?f i)"
    by (rule sum_next_index)
  finally have "(\<Sum>i<?n. ?g i) = 2 * (\<Sum>i<?n. ?f i)"
    by simp
  then have "even (\<Sum>i<?n. ?g i)"
    by simp
  then have "even (card {i \<in> {..<?n}. odd (?g i)})"
    by (simp add: even_sum_iff)
  moreover have "{i \<in> {..<?n}. odd (?g i)} = {i. i < ?n \<and> crosses h ps y i}"
    using odd by auto
  moreover have "length (filter (crosses h ps y) [0..<?n]) = card {i. i < ?n \<and> crosses h ps y i}"
  proof -
    have "{i. i < ?n \<and> crosses h ps y ([0..<?n] ! i)} = {i. i < ?n \<and> crosses h ps y i}"
      by auto
    then show ?thesis
      by (simp add: length_filter_conv_card)
  qed
  ultimately show ?thesis by simp
qed

lemma intersections_even: "even (length (intersection_x_coordinates h (edges h ps) y))"
  using crossings_even [of h ps y] by (simp add: intersections_filter)

subsection \<open>Canvas: insertion\<close>

text \<open>
  C4. \<open>addPoint\<close> succeeds and appends the point exactly when \<open>0 \<le> x \<le> width\<close> and
  \<open>0 \<le> y \<le> height\<close>, both bounds included; otherwise it throws and the canvas, with
  its list of points, is as before.
\<close>

theorem addPoint_inclusive_bounds:
  "addPoint h p cv =
     (if 0 \<le> px (h p) \<and> px (h p) \<le> of_nat (dom_width cv) \<and>
         0 \<le> py (h p) \<and> py (h p) \<le> of_nat (dom_height cv)
      then (Normal, cv\<lparr>points := points cv @ [p]\<rparr>)
      else (Throw (Error ''Point out of bounds''), cv))"
  by (auto simp: addPoint_def isOutOfBounds_def)

theorem addPoint_inclusive_bounds_witness:
  "addPoint (\<lambda>r. \<lparr>px = 100, py = 50, pz = 0\<rparr>) 0 (new_Canvas 100 50)
     = (Normal, (new_Canvas 100 50)\<lparr>points := [0]\<rparr>)
   \<and> addPoint (\<lambda>r. \<lparr>px = 101, py = 50, pz = 0\<rparr>) 0 (new_Canvas 100 50)
     = (Throw (Error ''Point out of bounds''), new_Canvas 100 50)
   \<and> addPoint (\<lambda>r. \<lparr>px = 100, py = 51, pz = 0\<rparr>) 0 (new_Canvas 100 50)
     = (Throw (Error ''Point out of bounds''), new_Canvas 100 50)"
  using addPoint_inclusive_bounds [of "\<lambda>r. \<lparr>px = 100, py = 50, pz = 0\<rparr>" 0 "new_Canvas 100 50"]
        addPoint_inclusive_bounds [of "\<lambda>r. \<lparr>px = 101, py = 50, pz = 0\<rparr>" 0 "new_Canvas 100 50"]
        addPoint_inclusive_bounds [of "\<lambda>r. \<lparr>px = 100, py = 51, pz = 0\<rparr>" 0 "new_Canvas 100 50"]
  by (simp add: new_Canvas_def dom_width_def dom_height_def translate_def getContext_def)

text \<open>
  C5. \<open>addPolygon\<close> throws exactly when one of the points the polygon refers to, read
  from the store as it is at the call, is out of bounds, and then the canvas, with its
  list of polygons, is as before; otherwise the polygon is appended.
\<close>

theorem addPolygon_out_of_bounds:
  "addPolygon h polygon cv =
     (if \<exists>p \<in> set (Polygon.points polygon). isOutOfBounds cv (h p)
      then (Throw (Error ''Polygon out of bounds''), cv)
      else (Normal, cv\<lparr>polygons := polygons cv @ [polygon]\<rparr>))"
  by (simp add: addPolygon_def list_ex_iff)

theorem addPolygon_out_of_bounds_witness:
  "addPolygon ((\<lambda>r. \<lparr>px = 10, py = 10, pz = 0\<rparr>)(2 := \<lparr>px = 10, py = 51, pz = 0\<rparr>))
      \<lparr>Polygon.points = [0, 1, 2], color = [255, 0, 0, 1]\<rparr> (new_Canvas 100 50)
     = (Throw (Error ''Polygon out of bounds''), new_Canvas 100 50)
   \<and> addPolygon (\<lambda>r. \<lparr>px = 10, py = 10, pz = 0\<rparr>)
      \<lparr>Polygon.points = [0, 1, 2], color = [255, 0, 0, 1]\<rparr> (new_Canvas 100 50)
     = (Normal, (new_Canvas 100 50)
          \<lparr>polygons := [\<lparr>Polygon.points = [0, 1, 2], color = [255, 0, 0, 1]\<rparr>]\<rparr>)"
  using addPolygon_out_of_bounds
          [of "(\<lambda>r. \<lparr>px = 10, py = 10, pz = 0\<rparr>)(2 := \<lparr>px = 10, py = 51, pz = 0\<rparr>)"
              "\<lparr>Polygon.points = [0, 1, 2], color = [255, 0, 0, 1]\<rparr>" "new_Canvas 100 50"]
        addPolygon_out_of_bounds
          [of "\<lambda>r. \<lparr>px = 10, py = 10, pz = 0\<rparr>"
              "\<lparr>Polygon.points = [0, 1, 2], color = [255, 0, 0, 1]\<rparr>" "new_Canvas 100 50"]
  by (simp add: isOutOfBounds_def new_Canvas_def dom_width_def dom_height_def translate_def
      getContext_def)

text \<open>
  C10. \<open>addPolygon\<close> does not look at the number of vertices: a polygon whose points
  are all in bounds is appended, whatever the length of its list of points, also with
  fewer than three points and with none.
\<close>

theorem addPolygon_no_vertex_count_check:
  "(\<forall>p \<in> set (Polygon.points polygon). \<not> isOutOfBounds cv (h p)) \<longrightarrow>
     addPolygon h polygon cv = (Normal, cv\<lparr>polygons := polygons cv @ [polygon]\<rparr>)"
  by (simp add: addPolygon_def list_ex_iff)

theorem addPolygon_no_vertex_count_check_witness:
  "addPolygon (\<lambda>r. \<lparr>px = 10, py = 10, pz = 0\<rparr>)
      \<lparr>Polygon.points = [], color = [255, 0, 0, 1]\<rparr> (new_Canvas 100 50)
     = (Normal, (new_Canvas 100 50)
          \<lparr>polygons := [\<lparr>Polygon.points = [], color = [255, 0, 0, 1]\<rparr>]\<rparr>)
   \<and> length (Polygon.points \<lparr>Polygon.points = [0, 1], color = [255, 0, 0, 1]\<rparr>) < 3
   \<and> addPolygon (\<lambda>r. \<lparr>px = 10, py = 10, pz = 0\<rparr>)
      \<lparr>Polygon.points = [0, 1], color = [255, 0, 0, 1]\<rparr> (new_Canvas 100 50)
     = (Normal, (new_Canvas 100 50)
          \<lparr>polygons := [\<lparr>Polygon.points = [0, 1], color = [255, 0, 0, 1]\<rparr>]\<rparr>)"
  using addPolygon_no_vertex_count_check
          [of "\<lparr>Polygon.points = [], color = [255, 0, 0, 1]\<rparr>" "new_Canvas 100 50"
              "\<lambda>r. \<lparr>px = 10, py = 10, pz = 0\<rparr>"]
        addPolygon_no_vertex_count_check
          [of "\<lparr>Polygon.points = [0, 1], color = [255, 0, 0, 1]\<rparr>" "new_Canvas 100 50"
              "\<lambda>r. \<lparr>px = 10, py = 10, pz = 0\<rparr>"]
  by (simp add: isOutOfBounds_def new_Canvas_def dom_width_def dom_height_def translate_def
      getContext_def)

subsection \<open>Canvas: redraw\<close>

lemma all_units_returns:
  "(\<And>p. p \<in> set ps \<Longrightarrow> fill_units h p \<noteq> None) \<Longrightarrow> all_units h ps \<noteq> None"
  by (induction ps) (auto simp: bind_eq_None_conv)

lemma clear_and_draw_returns:
  assumes "\<And>p. p \<in> set (polygons cv) \<Longrightarrow> fill_scan_lines h p \<noteq> None"
  shows "clear_and_draw h cv \<noteq> None"
proof -
  have "all_units h (polygons cv) \<noteq> None"
    using assms by (intro all_units_returns) (simp add: fill_units_def)
  then show ?thesis
    by (simp add: clear_and_draw_units scene_units_def)
qed

text \<open>
  C8. On a canvas made by the constructor (the translation is \<open>(0.5, 0.5)\<close>, which no
  function changes), \<open>clear_and_draw\<close> is idempotent: with the same store, points,
  polygons and size a second call leaves the canvas, and so the surface, as the first
  call left it. The surface after a call holds the strokes of the points in insertion
  order followed by those of the polygons in insertion order, and nothing painted
  before the call. The call returns when every polygon is without vertices or has
  \<open>-2^53 \<le> minY + 1\<close> and \<open>maxY + 1 \<le> 2^53\<close>; a first call that does not return has no
  second.
\<close>

theorem clear_and_draw_idempotent:
  assumes "origin (ctx cv) = (1 / 2, 1 / 2)"
  shows "Option.bind (clear_and_draw h cv) (clear_and_draw h) = clear_and_draw h cv
    \<and> map_option (\<lambda>cv'. surface (ctx cv')) (clear_and_draw h cv)
        = map_option strokes (scene_units h cv)
    \<and> ((\<forall>p \<in> set (polygons cv). Polygon.points p = []
            \<or> (- (2 ^ 53) \<le> minY h p + 1 \<and> maxY h p + 1 \<le> 2 ^ 53))
         \<longrightarrow> clear_and_draw h cv \<noteq> None)"
proof -
  have ret: "(\<forall>p \<in> set (polygons cv). Polygon.points p = []
            \<or> (- (2 ^ 53) \<le> minY h p + 1 \<and> maxY h p + 1 \<le> 2 ^ 53))
         \<longrightarrow> clear_and_draw h cv \<noteq> None"
  proof
    assume a: "\<forall>p \<in> set (polygons cv). Polygon.points p = []
            \<or> (- (2 ^ 53) \<le> minY h p + 1 \<and> maxY h p + 1 \<le> 2 ^ 53)"
    show "clear_and_draw h cv \<noteq> None"
    proof (rule clear_and_draw_returns)
      fix p assume "p \<in> set (polygons cv)"
      with a have "Polygon.points p = []
          \<or> (- (2 ^ 53) \<le> minY h p + 1 \<and> maxY h p + 1 \<le> 2 ^ 53)" by (rule bspec)
      then show "fill_scan_lines h p \<noteq> None" by (rule fill_scan_lines_returns)
    qed
  qed
  have same: "Option.bind (clear_and_draw h cv) (clear_and_draw h) = clear_and_draw h cv
    \<and> map_option (\<lambda>cv'. surface (ctx cv')) (clear_and_draw h cv)
        = map_option strokes (scene_units h cv)"
  proof (cases "scene_units h cv")
    case None
    then show ?thesis
      by (simp add: clear_and_draw_constructed [OF assms])
  next
    case (Some us)
    let ?cv1 = "cv\<lparr>ctx := fold stroke_unit us ((ctx cv)\<lparr>surface := []\<rparr>)\<rparr>"
    have one: "clear_and_draw h cv = Some ?cv1"
      by (simp add: clear_and_draw_constructed [OF assms] Some)
    have "origin (ctx ?cv1) = (1 / 2, 1 / 2)"
      using assms by (simp add: fold_stroke_unit_origin)
    then have "clear_and_draw h ?cv1
        = map_option (\<lambda>us. ?cv1\<lparr>ctx := fold stroke_unit us ((ctx ?cv1)\<lparr>surface := []\<rparr>)\<rparr>)
            (scene_units h ?cv1)"
      by (rule clear_and_draw_constructed)
    also have "\<dots> = Some ?cv1"
      by (simp add: Some repaint_twice)
    finally have two: "clear_and_draw h ?cv1 = Some ?cv1" .
    have "surface (ctx ?cv1) = strokes us"
      by (simp add: fold_stroke_unit strokes_def)
    with one two Some show ?thesis by simp
  qed
  from same ret show ?thesis by (intro conjI) (elim conjE, assumption)+
qed

theorem clear_and_draw_idempotent_witness:
  "origin (ctx triangle_canvas) = (1 / 2, 1 / 2)
   \<and> polygons triangle_canvas = [triangle]
   \<and> - (2 ^ 53) \<le> minY triangle_heap triangle + 1
   \<and> maxY triangle_heap triangle + 1 \<le> 2 ^ 53
   \<and> clear_and_draw triangle_heap triangle_canvas \<noteq> None
   \<and> Option.bind (clear_and_draw triangle_heap triangle_canvas) (clear_and_draw triangle_heap)
       = clear_and_draw triangle_heap triangle_canvas
   \<and> map_option (\<lambda>cv'. surface (ctx cv')) (clear_and_draw triangle_heap triangle_canvas)
       = map_option strokes (scene_units triangle_heap triangle_canvas)"
proof -
  have o: "origin (ctx triangle_canvas) = (1 / 2, 1 / 2)"
    by (simp add: triangle_canvas_def new_Canvas_origin)
  have p: "polygons triangle_canvas = [triangle]"
    by (simp add: triangle_canvas_def)
  have m: "- (2 ^ 53) \<le> minY triangle_heap triangle + 1"
    "maxY triangle_heap triangle + 1 \<le> 2 ^ 53"
    by (simp_all add: triangle_extent)
  note t = clear_and_draw_idempotent [OF o, of triangle_heap]
  from m have "\<forall>p \<in> set (polygons triangle_canvas). Polygon.points p = []
      \<or> (- (2 ^ 53) \<le> minY triangle_heap p + 1 \<and> maxY triangle_heap p + 1 \<le> 2 ^ 53)"
    unfolding p by simp
  with t have r: "clear_and_draw triangle_heap triangle_canvas \<noteq> None"
    by blast
  from t o p m r show ?thesis
    by (intro conjI) (elim conjE, assumption)+
qed

subsection \<open>Dragging\<close>

lemma dragging_eq:
  "dragging =
     (addDragHandler triangle_heap triangle_canvas)
       \<lparr>drag_flag := True, drag_point := Some 1, drag_offset := (2, 1)\<rparr>"
  by (simp add: dragging_def mousedown_def addDragHandler_def triangle_canvas_def triangle_heap_def
     POINT_RADIUS_def power2_eq_square Let_def)

lemma dragged_rows:
  "fill_scan_lines (triangle_heap(1 := \<lparr>px = - 52, py = 999, pz = 0\<rparr>)) triangle \<noteq> None"
proof -
  let ?h = "triangle_heap(1 := \<lparr>px = - 52, py = 999, pz = 0\<rparr>)"
  have "Polygon.points triangle \<noteq> []" by (simp add: triangle_def)
  moreover have "minY ?h triangle = of_int 0" "maxY ?h triangle \<le> 2 ^ 53"
    by (simp_all add: minY_def maxY_def triangle_def triangle_heap_def ys_of_def)
  ultimately show ?thesis
    using fill_rows_int [of triangle ?h 0] by simp
qed

text \<open>
  C9. While a point is dragged, a move of the mouse does not throw. When the listener
  returns it returns normally: it has stored the position of the mouse minus the
  offset in \<open>x\<close> and \<open>y\<close> of the dragged point, as they are, with no test against the
  bounds and no clamping, has left \<open>z\<close> and every other point alone, and has redrawn the
  canvas from the updated store. It fails to return only when that redraw does not
  return.
\<close>

theorem mousemove_no_bounds_check:
  assumes "drag_flag w" and "drag_point w = Some p"
  shows "(\<forall>r. mousemove (ex, ey) w = Some r \<longrightarrow>
            fst r = Normal
          \<and> px (heap (snd r) p) = ex - fst (drag_offset w)
          \<and> py (heap (snd r) p) = ey - snd (drag_offset w)
          \<and> pz (heap (snd r) p) = pz (heap w p)
          \<and> (\<forall>q. q \<noteq> p \<longrightarrow> heap (snd r) q = heap w q)
          \<and> clear_and_draw (heap (snd r)) (canvas w) = Some (canvas (snd r)))
    \<and> (mousemove (ex, ey) w = None \<longleftrightarrow>
          clear_and_draw
            ((heap w)(p := (heap w p)\<lparr>px := ex - fst (drag_offset w),
                                      py := ey - snd (drag_offset w)\<rparr>))
            (canvas w) = None)"
  using assms by (auto simp: mousemove_def Let_def)

theorem mousemove_no_bounds_check_witness:
  "drag_flag dragging \<and> drag_point dragging = Some 1
   \<and> mousemove (- 50, 1000) dragging \<noteq> None
   \<and> fst (the (mousemove (- 50, 1000) dragging)) = Normal
   \<and> px (heap (snd (the (mousemove (- 50, 1000) dragging))) 1) = - 52
   \<and> py (heap (snd (the (mousemove (- 50, 1000) dragging))) 1) = 999
   \<and> isOutOfBounds (canvas dragging) (heap (snd (the (mousemove (- 50, 1000) dragging))) 1)
   \<and> \<not> isOutOfBounds (canvas dragging) (heap dragging 1)"
proof -
  have d: "drag_flag dragging" "drag_point dragging = Some 1" "drag_offset dragging = (2, 1)"
    "heap dragging = triangle_heap" "canvas dragging = triangle_canvas"
    by (simp_all add: dragging_eq addDragHandler_def)
  have h: "(heap dragging)(1 := (heap dragging 1)\<lparr>px := - 50 - fst (drag_offset dragging),
        py := 1000 - snd (drag_offset dragging)\<rparr>)
      = triangle_heap(1 := \<lparr>px = - 52, py = 999, pz = 0\<rparr>)"
    by (simp add: d triangle_heap_def)
  have "clear_and_draw (triangle_heap(1 := \<lparr>px = - 52, py = 999, pz = 0\<rparr>)) triangle_canvas
      \<noteq> None"
    using dragged_rows by (intro clear_and_draw_returns) (simp add: triangle_canvas_def)
  with mousemove_no_bounds_check [OF d(1,2), of "- 50" 1000]
  have ret: "mousemove (- 50, 1000) dragging \<noteq> None"
    by (simp only: h d(5)) simp
  then obtain r where r: "mousemove (- 50, 1000) dragging = Some r" by auto
  with mousemove_no_bounds_check [OF d(1,2), of "- 50" 1000]
  have "fst r = Normal" "px (heap (snd r) 1) = - 52" "py (heap (snd r) 1) = 999"
    by (simp_all add: d)
  then show ?thesis
    using ret r d
    by (simp add: isOutOfBounds_def triangle_canvas_def triangle_heap_def
        new_Canvas_def dom_width_def dom_height_def translate_def getContext_def)
qed

end
